theory Spec2Isabelle
  imports Complex_Main "HOL-Library.Word" "HOL-Library.Sublist"
begin

section \<open>Strings\<close>

text \<open>
  A Python \<open>str\<close> is a sequence of Unicode code points; the model keeps the code points
  as natural numbers, so that the whitespace and case rules of \<open>str.strip\<close> and of the
  \<open>re\<close> module can be written for every character a command may contain. \<open>ustr\<close>
  turns an ASCII literal into such a string.
\<close>

type_synonym pystr = "nat list"

definition ustr :: "string \<Rightarrow> pystr" where
  "ustr cs = map of_char cs"

text \<open>
  \<open>str.isspace\<close> on one character, which is also what \<open>\s\<close> matches in a \<open>str\<close>
  pattern: the code points CPython lists as Unicode whitespace.
\<close>

definition isspace :: "nat \<Rightarrow> bool" where
  "isspace c = (c \<in> set [9, 10, 11, 12, 13, 28, 29, 30, 31, 32, 133, 160, 5760,
                         8232, 8233, 8239, 8287, 12288] \<or> (8192 \<le> c \<and> c \<le> 8202))"

text \<open>\<open>command.strip()\<close>: leading and trailing whitespace removed.\<close>

definition strip :: "pystr \<Rightarrow> pystr" where
  "strip s = rev (dropWhile isspace (rev (dropWhile isspace s)))"

text \<open>
  \<open>re.sub(r"\s+", " ", s)\<close>: scanning from the left, every maximal run of whitespace is
  replaced by one space (code point 32).
\<close>

function sub_spaces :: "pystr \<Rightarrow> pystr" where
  "sub_spaces [] = []"
| "sub_spaces (c # cs) =
     (if isspace c then 32 # sub_spaces (dropWhile isspace cs) else c # sub_spaces cs)"
  by pat_completeness auto
termination
  by (relation "measure length") (auto simp: length_dropWhile_le less_Suc_eq_le)

section \<open>The command gate\<close>

subsection \<open>Regular expressions\<close>

text \<open>
  The fragment of \<open>re\<close> syntax that \<open>BLOCKED_PATTERNS\<close> uses: the anchors \<open>^\<close> and
  \<open>$\<close>, a literal character, \<open>\s\<close>, a character range, sequencing, \<open>?\<close>, \<open>*\<close> and
  \<open>+\<close>. The patterns have no back-references, look-arounds or possessive groups, so
  whether the backtracking matcher finds a match is whether one exists.
\<close>

datatype rx = Bol | Eol | Lit nat | Space | Range nat nat
  | Seq rx rx | Opt rx | Star rx | Plus rx

text \<open>
  Case-insensitive matching of a \<open>str\<close> pattern (\<open>re.I\<close>). The matcher lowers the
  subject character and looks it up among the lowered pattern character and its
  equivalents. \<open>lower_u\<close> is the lowercase mapping on the code points whose lowercase
  is an ASCII letter (A to Z, U+0130 and U+212A); \<open>ci_fixes\<close> lists the extra
  equivalents the module adds for \<open>i\<close>, \<open>s\<close> and \<open>k\<close> (U+0131, U+017F, U+212A).
\<close>

definition lower_u :: "nat \<Rightarrow> nat" where
  "lower_u c = (if 65 \<le> c \<and> c \<le> 90 then c + 32
                else if c = 304 then 105 else if c = 8490 then 107 else c)"

definition ci_fixes :: "nat \<Rightarrow> nat list" where
  "ci_fixes c = (if c = 105 then [305] else if c = 115 then [383]
                 else if c = 107 then [8490] else [])"

definition lit_match :: "bool \<Rightarrow> nat \<Rightarrow> nat \<Rightarrow> bool" where
  "lit_match ic c x =
     (if ic then lower_u x \<in> set (lower_u c # ci_fixes (lower_u c)) else x = c)"

definition range_match :: "bool \<Rightarrow> nat \<Rightarrow> nat \<Rightarrow> nat \<Rightarrow> bool" where
  "range_match ic lo hi x =
     (if ic then list_ex (\<lambda>i. lit_match True i x) [lo ..< Suc hi] else lo \<le> x \<and> x \<le> hi)"

text \<open>
  \<open>ends ic s r i\<close> lists the positions at which a match of \<open>r\<close> that starts at position
  \<open>i\<close> of \<open>s\<close> can end. A repetition is the closure of its body's end positions; since
  positions never decrease and are bounded by the length of \<open>s\<close>, that many rounds
  reach all of them.
\<close>

primrec star_closure :: "nat \<Rightarrow> (nat \<Rightarrow> nat list) \<Rightarrow> nat list \<Rightarrow> nat list" where
  "star_closure 0 f ps = ps"
| "star_closure (Suc n) f ps = star_closure n f (remdups (ps @ concat (map f ps)))"

primrec ends :: "bool \<Rightarrow> pystr \<Rightarrow> rx \<Rightarrow> nat \<Rightarrow> nat list" where
  "ends ic s Bol i = (if i = 0 then [i] else [])"
| "ends ic s Eol i =
     (if i = length s \<or> (Suc i = length s \<and> s ! i = 10) then [i] else [])"
| "ends ic s (Lit c) i = (if i < length s \<and> lit_match ic c (s ! i) then [Suc i] else [])"
| "ends ic s Space i = (if i < length s \<and> isspace (s ! i) then [Suc i] else [])"
| "ends ic s (Range lo hi) i =
     (if i < length s \<and> range_match ic lo hi (s ! i) then [Suc i] else [])"
| "ends ic s (Seq a b) i = concat (map (ends ic s b) (ends ic s a i))"
| "ends ic s (Opt a) i = ends ic s a i @ [i]"
| "ends ic s (Star a) i = star_closure (length s) (ends ic s a) [i]"
| "ends ic s (Plus a) i = star_closure (length s) (ends ic s a) (ends ic s a i)"

text \<open>
  A compiled pattern: its source text (\<open>pattern.pattern\<close>), the \<open>re.I\<close> flag and the
  parsed expression. \<open>search\<close> tries every start position, as \<open>pattern.search\<close> does.
\<close>

record regex =
  pattern :: pystr
  ignorecase :: bool
  prog :: rx

definition search :: "regex \<Rightarrow> pystr \<Rightarrow> bool" where
  "search p s =
     list_ex (\<lambda>i. ends (ignorecase p) s (prog p) i \<noteq> []) [0 ..< Suc (length s)]"

fun seqs :: "rx list \<Rightarrow> rx" where
  "seqs [] = Opt Bol"
| "seqs [r] = r"
| "seqs (r # rs) = Seq r (seqs rs)"

definition lits :: "string \<Rightarrow> rx" where
  "lits cs = seqs (map (\<lambda>c. Lit (of_char c)) cs)"

text \<open>
  \<^verbatim>\<open>
  BLOCKED_PATTERNS = [
      re.compile(r"^(sudo\s+)?rm\s+(-[a-z]*f[a-z]*\s+)?/\s*$", re.I),  # rm -rf /
      re.compile(r"^(sudo\s+)?ls\s+(-[a-z]*r[a-z]*)", re.I),            # ls -R
  ]
  \<close>
  Code point 92 is the backslash.
\<close>

definition RM_ROOT :: regex where
  "RM_ROOT =
    \<lparr>pattern = ustr ''^(sudo'' @ [92] @ ustr ''s+)?rm'' @ [92]
                 @ ustr ''s+(-[a-z]*f[a-z]*'' @ [92] @ ustr ''s+)?/'' @ [92] @ ustr ''s*$'',
     ignorecase = True,
     prog = seqs [Bol, Opt (Seq (lits ''sudo'') (Plus Space)), lits ''rm'', Plus Space,
                  Opt (seqs [Lit 45, Star (Range 97 122), Lit 102, Star (Range 97 122),
                             Plus Space]),
                  Lit 47, Star Space, Eol]\<rparr>"

definition LS_RECURSIVE :: regex where
  "LS_RECURSIVE =
    \<lparr>pattern = ustr ''^(sudo'' @ [92] @ ustr ''s+)?ls'' @ [92]
                 @ ustr ''s+(-[a-z]*r[a-z]*)'',
     ignorecase = True,
     prog = seqs [Bol, Opt (Seq (lits ''sudo'') (Plus Space)), lits ''ls'', Plus Space,
                  seqs [Lit 45, Star (Range 97 122), Lit 114, Star (Range 97 122)]]\<rparr>"

definition BLOCKED_PATTERNS :: "regex list" where
  "BLOCKED_PATTERNS = [RM_ROOT, LS_RECURSIVE]"

text \<open>
  \<^verbatim>\<open>
  def is_blocked_command(command: str) -> Optional[str]:
      cmd = re.sub(r"\s+", " ", command.strip())
      for pattern in BLOCKED_PATTERNS:
          if pattern.search(cmd):
              return f"Blocked: command matches dangerous pattern ({pattern.pattern})"
      return None
  \<close>
\<close>

definition reason :: "regex \<Rightarrow> pystr" where
  "reason p = ustr ''Blocked: command matches dangerous pattern ('' @ pattern p @ ustr '')''"

fun first_match :: "regex list \<Rightarrow> pystr \<Rightarrow> pystr option" where
  "first_match [] cmd = None"
| "first_match (p # ps) cmd =
     (if search p cmd then Some (reason p) else first_match ps cmd)"

definition is_blocked_command :: "pystr \<Rightarrow> pystr option" where
  "is_blocked_command command =
     (let cmd = sub_spaces (strip command) in first_match BLOCKED_PATTERNS cmd)"

text \<open>
  The gate in the words of the specification, for comparison: the command is split into
  its whitespace-separated words, which are joined again by single spaces.
\<close>

function spec_words :: "pystr \<Rightarrow> pystr list" where
  "spec_words s =
     (let t = dropWhile isspace s
      in if t = [] then []
         else takeWhile (\<lambda>c. \<not> isspace c) t # spec_words (dropWhile (\<lambda>c. \<not> isspace c) t))"
  by pat_completeness auto
termination
proof (relation "measure length", simp)
  fix s t :: pystr
  assume t: "t = dropWhile isspace s" and ne: "t \<noteq> []"
  have "length (dropWhile (\<lambda>c. \<not> isspace c) t) < length t"
  proof (cases t)
    case Nil
    with ne show ?thesis by simp
  next
    case (Cons c cs)
    have "\<not> isspace (hd (dropWhile isspace s))"
      using ne t hd_dropWhile [of isspace s] by simp
    then have "\<not> isspace c" using Cons t by simp
    then have "length (dropWhile (\<lambda>c. \<not> isspace c) t) \<le> length cs"
      by (simp add: Cons length_dropWhile_le)
    then show ?thesis by (simp add: Cons)
  qed
  also have "length t \<le> length s" by (simp add: t length_dropWhile_le)
  finally show "(dropWhile (\<lambda>c. \<not> isspace c) t, s) \<in> measure length" by simp
qed

declare spec_words.simps [simp del]

fun join_spaces :: "pystr list \<Rightarrow> pystr" where
  "join_spaces [] = []"
| "join_spaces [w] = w"
| "join_spaces (w # ws) = w @ 32 # join_spaces ws"

definition spec_normalize :: "pystr \<Rightarrow> pystr" where
  "spec_normalize s = join_spaces (spec_words s)"

text \<open>Trailing whitespace removed: the right half of \<open>strip\<close>.\<close>

definition rstrip :: "pystr \<Rightarrow> pystr" where
  "rstrip s = rev (dropWhile isspace (rev s))"

section \<open>Jobs and the registry\<close>

text \<open>
  The status of a job is one of five strings; \<open>status_str\<close> gives the string back
  where a reply quotes it.
\<close>

datatype status = Running | Finished | Error | Cancelled | Timeout

fun status_str :: "status \<Rightarrow> pystr" where
  "status_str Running = ustr ''running''"
| "status_str Finished = ustr ''finished''"
| "status_str Error = ustr ''error''"
| "status_str Cancelled = ustr ''cancelled''"
| "status_str Timeout = ustr ''timeout''"

type_synonym proc = nat

text \<open>
  A job is a dictionary. The keys written at submission are always present; the keys a
  later \<open>update\<close> adds (\<open>stdout\<close>, \<open>stderr\<close>, \<open>returncode\<close>, \<open>error\<close>,
  \<open>finished_at\<close>) are optional, and \<open>process\<close> holds \<open>None\<close> until the child is
  spawned. Timestamps are the values of \<open>time.time()\<close>, taken as exact reals.
\<close>

record job =
  status :: status
  command :: pystr
  cwd :: "pystr option"
  created_at :: real
  output_lines :: "pystr list"
  process :: "proc option"
  stdout :: "pystr option"
  stderr :: "pystr option"
  returncode :: "int option"
  error :: "pystr option"
  finished_at :: "real option"

record command_request =
  req_command :: pystr
  req_cwd :: "pystr option"
  req_timeout :: int
  req_env :: "(pystr \<times> pystr) list option"

definition JOB_TTL_SECONDS :: real where
  "JOB_TTL_SECONDS = 3600"

text \<open>
  What \<open>proc.wait()\<close> learns from the operating system, and the \<open>proc.returncode\<close>
  Python derives from it: the exit status (one byte) of a child that exited, or minus
  the signal number of a child that a signal terminated.
\<close>

datatype wait_status = Exited "8 word" | Signaled nat

fun returncode_of :: "wait_status \<Rightarrow> int" where
  "returncode_of (Exited w) = uint w"
| "returncode_of (Signaled n) = - int n"

text \<open>
  The runner task \<open>run()\<close> of a job, by the \<open>await\<close> it is suspended at: the spawn,
  a \<open>readline\<close> under \<open>wait_for\<close>, the \<open>proc.wait()\<close> after end of stream, the
  \<open>proc.wait()\<close> after the kill of the timeout branch; or it has returned.
\<close>

datatype pc = Spawning | Reading proc | Wait_exit proc | Wait_killed proc | Ended

text \<open>
  The state of the service. \<open>jobs\<close> lists the keys of the \<open>jobs\<close> dictionary in
  insertion order and \<open>store\<close> holds the job objects: a job deleted from the dictionary
  stays in the store, as the object stays alive in Python while the runner (through
  \<open>output_lines\<close>) or a stream generator (through \<open>job\<close>) still refers to it.
  \<open>uuid.uuid4()\<close> is taken to return a fresh identifier each time: the n-th submission
  gets identifier n. \<open>kills\<close> logs the calls of \<open>proc.kill()\<close>.
\<close>

record sys =
  jobs :: "nat list"
  store :: "nat \<rightharpoonup> job"
  tasks :: "nat \<rightharpoonup> pc"
  next_id :: nat
  kills :: "proc list"

definition init :: sys where
  "init = \<lparr>jobs = [], store = Map.empty, tasks = Map.empty, next_id = 0, kills = []\<rparr>"

text \<open>\<open>jobs.get(job_id)\<close>\<close>

definition jobs_get :: "sys \<Rightarrow> nat \<Rightarrow> job option" where
  "jobs_get s j = (if j \<in> set (jobs s) then store s j else None)"

text \<open>
  \<^verbatim>\<open>
  def purge_old_jobs():
      now = time.time()
      expired = [
          jid for jid, job in jobs.items()
          if job["status"] in ("finished", "error", "cancelled", "timeout")
          and now - job.get("finished_at", now) > JOB_TTL_SECONDS
      ]
      for jid in expired:
          del jobs[jid]
  \<close>
\<close>

definition expired :: "real \<Rightarrow> job \<Rightarrow> bool" where
  "expired now job =
     (status job \<in> set [Finished, Error, Cancelled, Timeout]
      \<and> now - (case finished_at job of None \<Rightarrow> now | Some f \<Rightarrow> f) > JOB_TTL_SECONDS)"

definition is_expired :: "real \<Rightarrow> sys \<Rightarrow> nat \<Rightarrow> bool" where
  "is_expired now s j = (case store s j of None \<Rightarrow> False | Some job \<Rightarrow> expired now job)"

definition purge_old_jobs :: "real \<Rightarrow> sys \<Rightarrow> sys" where
  "purge_old_jobs now s = s\<lparr>jobs := filter (\<lambda>j. \<not> is_expired now s j) (jobs s)\<rparr>"

section \<open>The service as a transition system\<close>

text \<open>
  The service runs on one event loop: a request handler or a runner task runs without
  interruption from one \<open>await\<close> to the next. An event is one such uninterrupted piece,
  together with what the environment decided in it: the clock readings, what the child
  process wrote, whether a system call failed.
  \<^item> \<open>Exec req t t'\<close>: POST /exec, with the clock readings of the purge and of \<open>created_at\<close>;
  \<^item> \<open>Spawn_ok j p\<close>, \<open>Spawn_err j e t\<close>: \<open>create_subprocess_shell\<close> returns process
    \<open>p\<close>, or raises;
  \<^item> \<open>Read_line j l\<close>, \<open>Read_eof j\<close>, \<open>Read_err j e t\<close>: \<open>readline\<close> returns a line, returns
    the empty end-of-stream marker, or raises;
  \<^item> \<open>Timed_out j k t\<close>: \<open>wait_for\<close> raises \<open>TimeoutError\<close>; \<open>k\<close> is the exception of
    \<open>proc.kill()\<close>, if it raises one;
  \<^item> \<open>Wait_ok j w t\<close>, \<open>Wait_err j e t\<close>: \<open>proc.wait()\<close> returns, or raises;
  \<^item> \<open>Cancel j k t\<close>: POST /cancel; \<open>k\<close> tells whether \<open>proc.kill()\<close> raises
    \<open>ProcessLookupError\<close>;
  \<^item> \<open>List_jobs t\<close>: GET /jobs.
  An exception is carried as its message \<open>str(e)\<close>.
\<close>

datatype event =
    Exec command_request real real
  | Spawn_ok nat proc
  | Spawn_err nat pystr real
  | Read_line nat pystr
  | Read_eof nat
  | Read_err nat pystr real
  | Timed_out nat "pystr option" real
  | Wait_ok nat wait_status real
  | Wait_err nat pystr real
  | Cancel nat bool real
  | List_jobs real

datatype response =
    Http_error nat pystr
  | Job_created nat
  | Message pystr
  | Job_list "(nat \<times> status \<times> pystr \<times> real) list"
  | Task_step

text \<open>
  \<open>jobs[job_id].update(...)\<close> in the runner: \<open>None\<close> is the \<open>KeyError\<close> of a job that
  is no longer in the dictionary.
\<close>

definition job_update :: "nat \<Rightarrow> (job \<Rightarrow> job) \<Rightarrow> sys \<Rightarrow> sys option" where
  "job_update j f s =
     (case jobs_get s j of None \<Rightarrow> None
      | Some job \<Rightarrow> Some (s\<lparr>store := (store s)(j \<mapsto> f job)\<rparr>))"

definition task_set :: "nat \<Rightarrow> pc \<Rightarrow> sys \<Rightarrow> sys" where
  "task_set j c s = s\<lparr>tasks := (tasks s)(j \<mapsto> c)\<rparr>"

text \<open>
  \<^verbatim>\<open>
        except Exception as e:
            jobs[job_id].update({
                "status": "error",
                "error": str(e),
                "finished_at": time.time(),
            })
  \<close>
  When the job is no longer in the dictionary, \<open>jobs[job_id]\<close> raises \<open>KeyError\<close> in
  the handler itself: the task ends and nothing is written. The same happens when the
  \<open>KeyError\<close> comes from the body of \<open>run()\<close>, since the handler raises it again.
\<close>

definition run_failed :: "nat \<Rightarrow> pystr \<Rightarrow> real \<Rightarrow> sys \<Rightarrow> sys" where
  "run_failed j e now s =
     task_set j Ended
       (case job_update j (\<lambda>job. job\<lparr>status := Error, error := Some e,
                                     finished_at := Some now\<rparr>) s of
          None \<Rightarrow> s
        | Some s' \<Rightarrow> s')"

text \<open>The two updates that end a run: after the timeout's kill, and after a normal end.\<close>

definition set_timeout :: "real \<Rightarrow> job \<Rightarrow> job" where
  "set_timeout now job =
     job\<lparr>status := Timeout, stdout := Some (concat (output_lines job)), stderr := Some [],
         returncode := Some (- 1), finished_at := Some now\<rparr>"

definition set_finished :: "int \<Rightarrow> real \<Rightarrow> job \<Rightarrow> job" where
  "set_finished rc now job =
     job\<lparr>status := Finished, stdout := Some (concat (output_lines job)), stderr := Some [],
         returncode := Some rc, finished_at := Some now\<rparr>"

definition finish_with :: "nat \<Rightarrow> (job \<Rightarrow> job) \<Rightarrow> sys \<Rightarrow> sys" where
  "finish_with j f s =
     task_set j Ended (case job_update j f s of None \<Rightarrow> s | Some s' \<Rightarrow> s')"

text \<open>\<open>output_lines.append(line)\<close>, through the list the closure of \<open>run()\<close> holds.\<close>

definition append_line :: "nat \<Rightarrow> pystr \<Rightarrow> sys \<Rightarrow> sys" where
  "append_line j l s =
     (case store s j of None \<Rightarrow> s
      | Some job \<Rightarrow> s\<lparr>store := (store s)(j \<mapsto> job\<lparr>output_lines := output_lines job @ [l]\<rparr>)\<rparr>)"

text \<open>One piece of \<open>run()\<close> for job \<open>j\<close>, from the \<open>await\<close> the task is suspended at.\<close>

fun run_step :: "event \<Rightarrow> pc \<Rightarrow> nat \<Rightarrow> sys \<Rightarrow> sys" where
  "run_step (Spawn_ok _ p) Spawning j s =
     (case job_update j (\<lambda>job. job\<lparr>process := Some p\<rparr>) s of
        None \<Rightarrow> task_set j Ended s
      | Some s' \<Rightarrow> task_set j (Reading p) s')"
| "run_step (Spawn_err _ e now) Spawning j s = run_failed j e now s"
| "run_step (Read_line _ l) (Reading p) j s = append_line j l s"
| "run_step (Read_eof _) (Reading p) j s = task_set j (Wait_exit p) s"
| "run_step (Read_err _ e now) (Reading p) j s = run_failed j e now s"
| "run_step (Timed_out _ k now) (Reading p) j s =
     (let s1 = s\<lparr>kills := kills s @ [p]\<rparr>
      in case k of Some e \<Rightarrow> run_failed j e now s1
                 | None \<Rightarrow> task_set j (Wait_killed p) s1)"
| "run_step (Wait_ok _ w now) (Wait_killed p) j s = finish_with j (set_timeout now) s"
| "run_step (Wait_err _ e now) (Wait_killed p) j s = run_failed j e now s"
| "run_step (Wait_ok _ w now) (Wait_exit p) j s =
     finish_with j (set_finished (returncode_of w) now) s"
| "run_step (Wait_err _ e now) (Wait_exit p) j s = run_failed j e now s"
| "run_step _ _ j s = s"

fun task_of :: "event \<Rightarrow> nat option" where
  "task_of (Spawn_ok j _) = Some j"
| "task_of (Spawn_err j _ _) = Some j"
| "task_of (Read_line j _) = Some j"
| "task_of (Read_eof j) = Some j"
| "task_of (Read_err j _ _) = Some j"
| "task_of (Timed_out j _ _) = Some j"
| "task_of (Wait_ok j _ _) = Some j"
| "task_of (Wait_err j _ _) = Some j"
| "task_of _ = None"

text \<open>
  \<^verbatim>\<open>
  async def exec_command(req: CommandRequest):
      purge_old_jobs()
      blocked = is_blocked_command(req.command)
      if blocked:
          raise HTTPException(status_code=400, detail=blocked)
      job_id = str(uuid.uuid4())
      output_lines: list[str] = []
      jobs[job_id] = {"status": "running", "command": req.command, "cwd": req.cwd,
                      "created_at": time.time(), "output_lines": output_lines,
                      "process": None}
      ...
      asyncio.create_task(run())
      return {"job_id": job_id}
  \<close>
\<close>

definition new_job :: "command_request \<Rightarrow> real \<Rightarrow> job" where
  "new_job req now =
     \<lparr>status = Running, command = req_command req, cwd = req_cwd req, created_at = now,
      output_lines = [], process = None, stdout = None, stderr = None, returncode = None,
      error = None, finished_at = None\<rparr>"

definition exec_command :: "command_request \<Rightarrow> real \<Rightarrow> real \<Rightarrow> sys \<Rightarrow> response \<times> sys" where
  "exec_command req t_purge t_created s =
     (let s1 = purge_old_jobs t_purge s
      in case is_blocked_command (req_command req) of
           Some blocked \<Rightarrow> (Http_error 400 blocked, s1)
         | None \<Rightarrow>
             (let j = next_id s1
              in (Job_created j,
                  s1\<lparr>jobs := jobs s1 @ [j],
                     store := (store s1)(j \<mapsto> new_job req t_created),
                     tasks := (tasks s1)(j \<mapsto> Spawning),
                     next_id := Suc j\<rparr>)))"

text \<open>
  \<^verbatim>\<open>
  async def cancel_job(job_id: str):
      if job_id not in jobs:
          raise HTTPException(status_code=404, detail="Job not found")
      job = jobs[job_id]
      if job["status"] != "running":
          return {"message": f"Job is already {job['status']}"}
      proc = job.get("process")
      if proc:
          try:
              proc.kill()
          except ProcessLookupError:
              pass
      job.update({"status": "cancelled", "finished_at": time.time()})
      return {"message": "Job cancelled"}
  \<close>
  The \<open>ProcessLookupError\<close> is swallowed, so both outcomes of the kill continue alike.
\<close>

definition cancel_job :: "nat \<Rightarrow> bool \<Rightarrow> real \<Rightarrow> sys \<Rightarrow> response \<times> sys" where
  "cancel_job j kill_raises now s =
     (case jobs_get s j of
        None \<Rightarrow> (Http_error 404 (ustr ''Job not found''), s)
      | Some job \<Rightarrow>
          if status job \<noteq> Running
          then (Message (ustr ''Job is already '' @ status_str (status job)), s)
          else
            (let s1 = (case process job of
                         None \<Rightarrow> s
                       | Some p \<Rightarrow> if kill_raises then s\<lparr>kills := kills s @ [p]\<rparr>
                                   else s\<lparr>kills := kills s @ [p]\<rparr>)
             in (Message (ustr ''Job cancelled''),
                 s1\<lparr>store := (store s1)(j \<mapsto> job\<lparr>status := Cancelled,
                                                     finished_at := Some now\<rparr>)\<rparr>)))"

text \<open>
  \<^verbatim>\<open>
  async def list_jobs():
      purge_old_jobs()
      return {"jobs": [{"job_id": jid, "status": job["status"],
                        "command": job.get("command", ""),
                        "created_at": job.get("created_at")}
                       for jid, job in jobs.items()]}
  \<close>
\<close>

definition summary :: "sys \<Rightarrow> nat \<Rightarrow> (nat \<times> status \<times> pystr \<times> real) list" where
  "summary s j =
     (case store s j of None \<Rightarrow> []
      | Some job \<Rightarrow> [(j, status job, command job, created_at job)])"

definition list_jobs :: "real \<Rightarrow> sys \<Rightarrow> response \<times> sys" where
  "list_jobs now s =
     (let s1 = purge_old_jobs now s in (Job_list (concat (map (summary s1) (jobs s1))), s1))"

text \<open>
  One event. A runner event for a job with no task, or one the task is not waiting for,
  cannot happen and leaves the state as it is.
\<close>

definition step :: "event \<Rightarrow> sys \<Rightarrow> response \<times> sys" where
  "step e s =
     (case e of
        Exec req t t' \<Rightarrow> exec_command req t t' s
      | Cancel j k now \<Rightarrow> cancel_job j k now s
      | List_jobs now \<Rightarrow> list_jobs now s
      | _ \<Rightarrow> (Task_step,
              case task_of e of
                None \<Rightarrow> s
              | Some j \<Rightarrow> (case tasks s j of None \<Rightarrow> s | Some c \<Rightarrow> run_step e c j s)))"

fun exec_trace :: "event list \<Rightarrow> sys \<Rightarrow> sys" where
  "exec_trace [] s = s"
| "exec_trace (e # es) s = exec_trace es (snd (step e s))"

section \<open>Reading a job\<close>

text \<open>
  \<^verbatim>\<open>
  async def result(job_id: str):
      if job_id not in jobs:
          raise HTTPException(status_code=404, detail="Job not found")
      job = jobs[job_id]
      return {"job_id": job_id, "status": job["status"], "stdout": job.get("stdout", ""),
              "stderr": job.get("stderr", ""), "returncode": job.get("returncode"),
              "error": job.get("error")}
  \<close>
\<close>

record result_body =
  r_job_id :: nat
  r_status :: status
  r_stdout :: pystr
  r_stderr :: pystr
  r_returncode :: "int option"
  r_error :: "pystr option"

definition get_result :: "sys \<Rightarrow> nat \<Rightarrow> response + result_body" where
  "get_result s j =
     (case jobs_get s j of
        None \<Rightarrow> Inl (Http_error 404 (ustr ''Job not found''))
      | Some job \<Rightarrow>
          Inr \<lparr>r_job_id = j, r_status = status job,
               r_stdout = (case stdout job of None \<Rightarrow> [] | Some t \<Rightarrow> t),
               r_stderr = (case stderr job of None \<Rightarrow> [] | Some t \<Rightarrow> t),
               r_returncode = returncode job, r_error = error job\<rparr>)"

text \<open>
  \<^verbatim>\<open>
  async def stream_output(job_id: str):
      if job_id not in jobs:
          raise HTTPException(status_code=404, detail="Job not found")
      async def event_generator():
          idx = 0
          while True:
              job = jobs.get(job_id)
              if not job:
                  break
              lines = job.get("output_lines", [])
              while idx < len(lines):
                  yield f"data: {lines[idx]}\n"
                  idx += 1
              if job["status"] != "running":
                  yield f"event: done\ndata: {job['status']}\n\n"
                  break
              await asyncio.sleep(0.3)
      return StreamingResponse(event_generator(), media_type="text/event-stream")
  \<close>
  The generator is suspended at a \<open>yield\<close> or at the \<open>sleep\<close>, and other tasks run
  meanwhile. \<open>gen_loc\<close> says where: at the top of the outer loop (\<open>At_poll\<close>, before
  the first resumption and after a sleep), inside the inner loop after a line was
  yielded (\<open>In_loop\<close>, holding the job object it looked up), after the done marker
  (\<open>After_done\<close>), or returned (\<open>Closed\<close>).
\<close>

datatype gen_loc = At_poll | In_loop | After_done | Closed

record gen =
  gen_job :: nat
  idx :: nat
  loc :: gen_loc

datatype gen_out = Line_chunk pystr | Done_chunk pystr | Sleeping | Stopped

definition data_chunk :: "pystr \<Rightarrow> pystr" where
  "data_chunk l = ustr ''data: '' @ l @ [10]"

definition done_chunk :: "status \<Rightarrow> pystr" where
  "done_chunk st = ustr ''event: done'' @ [10] @ ustr ''data: '' @ status_str st @ [10, 10]"

definition gen_body :: "gen \<Rightarrow> job \<Rightarrow> gen_out \<times> gen" where
  "gen_body g job =
     (if idx g < length (output_lines job)
      then (Line_chunk (data_chunk (output_lines job ! idx g)),
            g\<lparr>idx := Suc (idx g), loc := In_loop\<rparr>)
      else if status job \<noteq> Running
      then (Done_chunk (done_chunk (status job)), g\<lparr>loc := After_done\<rparr>)
      else (Sleeping, g\<lparr>loc := At_poll\<rparr>))"

definition gen_resume :: "sys \<Rightarrow> gen \<Rightarrow> gen_out \<times> gen" where
  "gen_resume s g =
     (case loc g of
        At_poll \<Rightarrow>
          (case jobs_get s (gen_job g) of
             None \<Rightarrow> (Stopped, g\<lparr>loc := Closed\<rparr>)
           | Some job \<Rightarrow> gen_body g job)
      | In_loop \<Rightarrow>
          (case store s (gen_job g) of
             None \<Rightarrow> (Stopped, g\<lparr>loc := Closed\<rparr>)
           | Some job \<Rightarrow> gen_body g job)
      | After_done \<Rightarrow> (Stopped, g\<lparr>loc := Closed\<rparr>)
      | Closed \<Rightarrow> (Stopped, g))"

definition stream_output :: "sys \<Rightarrow> nat \<Rightarrow> response + gen" where
  "stream_output s j =
     (if j \<notin> set (jobs s) then Inl (Http_error 404 (ustr ''Job not found''))
      else Inr \<lparr>gen_job = j, idx = 0, loc = At_poll\<rparr>)"

text \<open>
  A subscriber's view of a schedule: between two resumptions of its generator the
  service handles the events of one batch. The result lists what each resumption gave.
\<close>

fun stream_run :: "sys \<Rightarrow> gen \<Rightarrow> event list list \<Rightarrow> gen_out list \<times> sys \<times> gen" where
  "stream_run s g [] = ([], s, g)"
| "stream_run s g (es # sched) =
     (let s1 = exec_trace es s;
          (out, g1) = gen_resume s1 g;
          (outs, s2, g2) = stream_run s1 g1 sched
      in (out # outs, s2, g2))"

text \<open>The state of the service at each resumption of the generator.\<close>

fun states_at :: "sys \<Rightarrow> event list list \<Rightarrow> sys list" where
  "states_at s [] = []"
| "states_at s (es # sched) = exec_trace es s # states_at (exec_trace es s) sched"

text \<open>The lines a subscriber received, and whether a resumption ended its stream.\<close>

fun lines_of :: "gen_out list \<Rightarrow> pystr list" where
  "lines_of [] = []"
| "lines_of (Line_chunk c # outs) = c # lines_of outs"
| "lines_of (_ # outs) = lines_of outs"

fun closing :: "gen_out \<Rightarrow> bool" where
  "closing (Done_chunk c) = True"
| "closing Stopped = True"
| "closing _ = False"


section \<open>Well-formed states and example runs\<close>

text \<open>
  Identifiers are handed out in increasing order, so every identifier in use is below
  the next one, and every key of the dictionary has its job object. Every state the
  service reaches from \<open>init\<close> is well-formed.
\<close>

definition wf_sys :: "sys \<Rightarrow> bool" where
  "wf_sys s = ((\<forall>j \<in> set (jobs s). j < next_id s \<and> store s j \<noteq> None)
               \<and> (\<forall>j \<in> dom (store s). j < next_id s)
               \<and> (\<forall>j \<in> dom (tasks s). j < next_id s))"

definition yes_req :: command_request where
  "yes_req = \<lparr>req_command = ustr ''yes'', req_cwd = None, req_timeout = 1200,
              req_env = None\<rparr>"

definition rm_req :: command_request where
  "rm_req = \<lparr>req_command = ustr ''rm -rf /'', req_cwd = None, req_timeout = 1200,
             req_env = None\<rparr>"

definition y_line :: pystr where
  "y_line = [121, 10]"

text \<open>A job that was submitted at time 0, wrote one line and is still being read.\<close>

definition demo_reading :: sys where
  "demo_reading = exec_trace [Exec yes_req 0 0, Spawn_ok 0 7, Read_line 0 y_line] init"

text \<open>The same job, cancelled at time 5.\<close>

definition demo_cancelled :: sys where
  "demo_cancelled = exec_trace [Cancel 0 False 5] demo_reading"

text \<open>A job that is submitted but whose child process is not spawned yet.\<close>

definition demo_spawning :: sys where
  "demo_spawning = exec_trace [Exec yes_req 0 0] init"

text \<open>Two jobs: the first ended normally at time 10, the second is still running.\<close>

definition demo_two :: sys where
  "demo_two = exec_trace [Exec yes_req 0 0, Spawn_ok 0 7, Read_eof 0,
                          Wait_ok 0 (Exited 0) 10, Exec yes_req 20 20] init"


text \<open>
  A schedule for a subscriber of the job of \<open>demo_reading\<close>: the child writes a second
  line, the job is cancelled, and the runner reads a third line afterwards.
\<close>

definition demo_sched :: "event list list" where
  "demo_sched = [[], [Read_line 0 y_line], [], [Cancel 0 False 5], [], [Read_line 0 y_line], []]"

text \<open>
  A command whose shell sends itself the hang-up signal (signal 1), the run in which it
  ends that way, and a run of \<open>yes\<close> that times out.
\<close>

definition hup_req :: command_request where
  "hup_req = \<lparr>req_command = ustr ''kill -HUP $$'', req_cwd = None, req_timeout = 1200,
              req_env = None\<rparr>"

definition demo_hup :: sys where
  "demo_hup = exec_trace [Exec hup_req 0 0, Spawn_ok 0 7, Read_eof 0,
                          Wait_ok 0 (Signaled 1) 1] init"

definition demo_timed_out :: sys where
  "demo_timed_out = exec_trace [Timed_out 0 None 8, Wait_ok 0 (Signaled 9) 9] demo_reading"

text \<open>The job object that a submission of \<open>yes_req\<close> at time 0 creates.\<close>

definition yes_job :: job where
  "yes_job = \<lparr>status = Running, command = ustr ''yes'', cwd = None, created_at = 0,
      output_lines = [], process = None, stdout = None, stderr = None, returncode = None,
      error = None, finished_at = None\<rparr>"


section \<open>Evaluating the gate and the example runs\<close>

lemmas rx_defs = search_def lits_def lit_match_def lower_u_def ci_fixes_def isspace_def

lemmas sys_defs = step_def exec_command_def cancel_job_def list_jobs_def purge_old_jobs_def
  is_expired_def expired_def jobs_get_def job_update_def task_set_def run_failed_def
  finish_with_def set_timeout_def set_finished_def append_line_def new_job_def
  JOB_TTL_SECONDS_def summary_def

lemma range_match_ic:
  "range_match True lo hi x = (\<exists>i. lo \<le> i \<and> i \<le> hi \<and> lit_match True i x)"
proof -
  have "set [lo ..< Suc hi] = {i. lo \<le> i \<and> i \<le> hi}" by auto
  then show ?thesis unfolding range_match_def list_ex_iff by auto
qed

text \<open>
  Under \<open>re.I\<close> the class \<open>[a-z]\<close> matches the 52 ASCII letters and the four letters
  U+0130, U+0131, U+017F and U+212A.
\<close>

lemma range_az:
  "range_match True 97 122 x
   = (97 \<le> lower_u x \<and> lower_u x \<le> 122 \<or> x = 305 \<or> x = 383 \<or> x = 8490)"
proof -
  have low: "\<And>i::nat. 97 \<le> i \<Longrightarrow> i \<le> 122 \<Longrightarrow> lower_u i = i"
    by (simp add: lower_u_def)
  have "range_match True 97 122 x
        = (\<exists>i. 97 \<le> i \<and> i \<le> 122
               \<and> (lower_u x = lower_u i \<or> lower_u x \<in> set (ci_fixes (lower_u i))))"
    by (simp add: range_match_ic lit_match_def)
  also have "\<dots> = (\<exists>i. 97 \<le> i \<and> i \<le> 122 \<and> (lower_u x = i \<or> lower_u x \<in> set (ci_fixes i)))"
    using low by metis
  also have "\<dots> = (97 \<le> lower_u x \<and> lower_u x \<le> 122 \<or> x = 305 \<or> x = 383 \<or> x = 8490)"
  proof
    assume "\<exists>i. 97 \<le> i \<and> i \<le> 122 \<and> (lower_u x = i \<or> lower_u x \<in> set (ci_fixes i))"
    then obtain i where i: "97 \<le> i" "i \<le> 122"
        "lower_u x = i \<or> lower_u x \<in> set (ci_fixes i)"
      by blast
    from i(3) show "97 \<le> lower_u x \<and> lower_u x \<le> 122 \<or> x = 305 \<or> x = 383 \<or> x = 8490"
    proof
      assume "lower_u x = i"
      with i show ?thesis by simp
    next
      assume "lower_u x \<in> set (ci_fixes i)"
      then have "lower_u x = 305 \<or> lower_u x = 383 \<or> lower_u x = 8490"
        by (auto simp: ci_fixes_def split: if_splits)
      then show ?thesis by (auto simp: lower_u_def split: if_splits)
    qed
  next
    assume "97 \<le> lower_u x \<and> lower_u x \<le> 122 \<or> x = 305 \<or> x = 383 \<or> x = 8490"
    then consider "97 \<le> lower_u x \<and> lower_u x \<le> 122" | "x = 305" | "x = 383" | "x = 8490"
      by blast
    then show "\<exists>i. 97 \<le> i \<and> i \<le> 122 \<and> (lower_u x = i \<or> lower_u x \<in> set (ci_fixes i))"
    proof cases
      case 1
      then show ?thesis by blast
    next
      case 2
      then show ?thesis by (intro exI [of _ 105]) (simp add: ci_fixes_def lower_u_def)
    next
      case 3
      then show ?thesis by (intro exI [of _ 115]) (simp add: ci_fixes_def lower_u_def)
    next
      case 4
      then show ?thesis by (intro exI [of _ 107]) (simp add: ci_fixes_def lower_u_def)
    qed
  qed
  finally show ?thesis .
qed

lemma yes_norm: "sub_spaces (strip (ustr ''yes'')) = [121, 101, 115]"
  by (simp add: ustr_def strip_def isspace_def)

lemma yes_rm: "\<not> search RM_ROOT [121, 101, 115]"
  by (simp add: RM_ROOT_def rx_defs)

lemma yes_ls: "\<not> search LS_RECURSIVE [121, 101, 115]"
  by (simp add: LS_RECURSIVE_def rx_defs)

lemma yes_not_blocked: "is_blocked_command (req_command yes_req) = None"
  by (simp add: yes_req_def is_blocked_command_def BLOCKED_PATTERNS_def yes_norm yes_rm yes_ls)

lemma rm_norm: "sub_spaces (strip (ustr ''rm -rf /'')) = ustr ''rm -rf /''"
  by (simp add: ustr_def strip_def isspace_def)

lemma rm_search: "search RM_ROOT (ustr ''rm -rf /'')"
  by (simp add: RM_ROOT_def rx_defs range_az ustr_def)

lemma rm_blocked: "is_blocked_command (req_command rm_req) = Some (reason RM_ROOT)"
  by (simp add: rm_req_def is_blocked_command_def BLOCKED_PATTERNS_def rm_norm rm_search)

lemma demo_spawning_eq:
  "demo_spawning = \<lparr>jobs = [0], store = [0 \<mapsto> yes_job], tasks = [0 \<mapsto> Spawning],
                     next_id = 1, kills = []\<rparr>"
  by (simp add: demo_spawning_def sys_defs init_def yes_not_blocked yes_job_def)
     (simp add: yes_req_def)

lemma demo_reading_eq:
  "demo_reading = \<lparr>jobs = [0],
      store = [0 \<mapsto> yes_job\<lparr>output_lines := [y_line], process := Some 7\<rparr>],
      tasks = [0 \<mapsto> Reading 7], next_id = 1, kills = []\<rparr>"
  by (simp add: demo_reading_def sys_defs init_def yes_not_blocked yes_job_def)
     (simp add: yes_req_def)

lemma demo_cancelled_eq:
  "demo_cancelled = \<lparr>jobs = [0],
      store = [0 \<mapsto> yes_job\<lparr>status := Cancelled, output_lines := [y_line],
                               process := Some 7, finished_at := Some 5\<rparr>],
      tasks = [0 \<mapsto> Reading 7], next_id = 1, kills = [7]\<rparr>"
  by (simp add: demo_cancelled_def demo_reading_eq sys_defs yes_job_def)

lemma demo_two_eq:
  "demo_two = \<lparr>jobs = [0, 1],
      store = [0 \<mapsto> yes_job\<lparr>status := Finished, process := Some 7, stdout := Some [],
                               stderr := Some [], returncode := Some 0,
                               finished_at := Some 10\<rparr>,
               1 \<mapsto> yes_job\<lparr>created_at := 20\<rparr>],
      tasks = [0 \<mapsto> Ended, 1 \<mapsto> Spawning], next_id = 2, kills = []\<rparr>"
  by (simp add: demo_two_def sys_defs init_def yes_not_blocked yes_job_def)
     (simp add: yes_req_def)

section \<open>Status and output of a cancelled job\<close>

text \<open>
  C1. The claim: a job's status changes once, from running to one terminal status, and
  a job that has been cancelled is never seen with another status afterwards. The code
  at a concrete run: a job is submitted, its child is spawned, and the job is cancelled
  at time 5, which kills the child; the runner then reads the end of the stream, reaps
  the child (terminated by signal 9) and writes its own update. The status goes from
  cancelled to finished and \<open>finished_at\<close> is written a second time.
\<close>

theorem cancelled_job_becomes_finished:
  "let s3 = exec_trace [Exec yes_req 0 0, Spawn_ok 0 7, Cancel 0 False 5] init;
       s5 = exec_trace [Read_eof 0, Wait_ok 0 (Signaled 9) 6] s3
   in map_option status (jobs_get s3 0) = Some Cancelled
      \<and> map_option finished_at (jobs_get s3 0) = Some (Some 5)
      \<and> map_option status (jobs_get s5 0) = Some Finished
      \<and> map_option finished_at (jobs_get s5 0) = Some (Some 6)
      \<and> map_option returncode (jobs_get s5 0) = Some (Some (- 9))"
  by (simp add: sys_defs init_def yes_not_blocked)

text \<open>
  C2. The claim: the output of a job only grows, and no line is appended once the status
  is not running. The code at a concrete run: the job of \<open>demo_cancelled\<close> has status
  cancelled and one line of output; the runner, which is still reading, appends the next
  line the child had written, and the output of the cancelled job has two lines.
\<close>

theorem cancelled_job_output_grows:
  "let s = demo_cancelled; s' = snd (step (Read_line 0 y_line) s)
   in map_option status (jobs_get s 0) = Some Cancelled
      \<and> map_option output_lines (jobs_get s 0) = Some [y_line]
      \<and> map_option status (jobs_get s' 0) = Some Cancelled
      \<and> map_option output_lines (jobs_get s' 0) = Some [y_line, y_line]"
  by (simp add: demo_cancelled_eq sys_defs yes_job_def)

text \<open>
  C3. The claim: the result of a job in a terminal status has, as \<open>stdout\<close>, the join of
  the output lines captured before it ended, also for a cancelled or failed job. The
  code at two concrete runs: the cancelled job of \<open>demo_cancelled\<close>, and the same job
  when \<open>readline\<close> raises instead, both with one captured line. Neither update writes
  \<open>stdout\<close>, so the result gives the empty string.
\<close>

theorem cancelled_and_failed_result_without_output:
  "get_result demo_cancelled 0
     = Inr \<lparr>r_job_id = 0, r_status = Cancelled, r_stdout = [], r_stderr = [],
            r_returncode = None, r_error = None\<rparr>
   \<and> map_option (concat \<circ> output_lines) (jobs_get demo_cancelled 0) = Some y_line
   \<and> get_result (snd (step (Read_err 0 (ustr ''boom'') 5) demo_reading)) 0
     = Inr \<lparr>r_job_id = 0, r_status = Error, r_stdout = [], r_stderr = [],
            r_returncode = None, r_error = Some (ustr ''boom'')\<rparr>
   \<and> map_option (concat \<circ> output_lines)
        (jobs_get (snd (step (Read_err 0 (ustr ''boom'') 5) demo_reading)) 0) = Some y_line
   \<and> y_line \<noteq> []"
  by (simp add: demo_cancelled_eq demo_reading_eq get_result_def sys_defs yes_job_def
                y_line_def)

section \<open>Cancelling\<close>

text \<open>
  C7. Cancelling a job whose status is not running succeeds, answers with a message
  that reports the job's status, and changes nothing: the whole state of the service,
  and with it every field of the job, is as before.
\<close>

theorem cancel_terminal_job_is_noop:
  assumes "jobs_get s j = Some job" and "status job \<noteq> Running"
  shows "step (Cancel j k now) s
         = (Message (ustr ''Job is already '' @ status_str (status job)), s)"
  using assms by (simp add: step_def cancel_job_def)

theorem cancel_terminal_job_is_noop_witness:
  "step (Cancel 0 True 9) demo_cancelled
   = (Message (ustr ''Job is already cancelled''), demo_cancelled)"
proof -
  let ?job = "yes_job\<lparr>status := Cancelled, output_lines := [y_line], process := Some 7,
                       finished_at := Some 5\<rparr>"
  have h1: "jobs_get demo_cancelled 0 = Some ?job"
    by (simp add: demo_cancelled_eq jobs_get_def)
  have h2: "status ?job \<noteq> Running" by simp
  show ?thesis
    using cancel_terminal_job_is_noop [OF h1 h2, of True 9] by (simp add: ustr_def)
qed

text \<open>
  C10. Cancelling a running job whose \<open>process\<close> is still \<open>None\<close> succeeds and calls
  no \<open>kill\<close>: the job gets status cancelled and \<open>finished_at\<close>, nothing else changes,
  and when the spawn then returns, the child is recorded and still no \<open>kill\<close> is called.
\<close>

theorem cancel_before_spawn_sends_no_signal:
  assumes "jobs_get s j = Some job" and "status job = Running" and "process job = None"
  shows "step (Cancel j k now) s
         = (Message (ustr ''Job cancelled''),
            s\<lparr>store := (store s)(j \<mapsto> job\<lparr>status := Cancelled, finished_at := Some now\<rparr>)\<rparr>)
         \<and> kills (snd (step (Cancel j k now) s)) = kills s
         \<and> kills (exec_trace [Cancel j k now, Spawn_ok j p] s) = kills s"
proof -
  let ?s' = "s\<lparr>store := (store s)(j \<mapsto> job\<lparr>status := Cancelled, finished_at := Some now\<rparr>)\<rparr>"
  have c: "step (Cancel j k now) s = (Message (ustr ''Job cancelled''), ?s')"
    using assms by (simp add: step_def cancel_job_def)
  have "kills (snd (step (Spawn_ok j p) ?s')) = kills s"
    by (cases "tasks s j"; cases "the (tasks s j)")
       (auto simp: step_def job_update_def task_set_def jobs_get_def split: option.splits)
  with c show ?thesis by simp
qed

theorem cancel_before_spawn_sends_no_signal_witness:
  "jobs_get demo_spawning 0 = Some yes_job \<and> status yes_job = Running
   \<and> process yes_job = None
   \<and> step (Cancel 0 False 5) demo_spawning
     = (Message (ustr ''Job cancelled''),
        demo_spawning\<lparr>store := (store demo_spawning)
                         (0 \<mapsto> yes_job\<lparr>status := Cancelled, finished_at := Some 5\<rparr>)\<rparr>)
   \<and> kills (snd (step (Cancel 0 False 5) demo_spawning)) = kills demo_spawning
   \<and> kills (exec_trace [Cancel 0 False 5, Spawn_ok 0 7] demo_spawning) = kills demo_spawning"
proof -
  have h1: "jobs_get demo_spawning 0 = Some yes_job"
    by (simp add: demo_spawning_eq jobs_get_def)
  have h2: "status yes_job = Running" and h3: "process yes_job = None"
    by (simp_all add: yes_job_def)
  from h1 h2 h3 cancel_before_spawn_sends_no_signal [OF h1 h2 h3, of False 5 7]
  show ?thesis by blast
qed

section \<open>Rejected submissions and the retention sweep\<close>

lemma terminal_iff: "st \<in> set [Finished, Error, Cancelled, Timeout] \<longleftrightarrow> st \<noteq> Running"
  by (cases st) simp_all

lemma is_expired_iff:
  "is_expired now s j
   \<longleftrightarrow> (\<exists>job f. store s j = Some job \<and> status job \<noteq> Running
                 \<and> finished_at job = Some f \<and> now - f > 3600)"
  unfolding is_expired_def expired_def terminal_iff JOB_TTL_SECONDS_def
  by (auto split: option.splits)

text \<open>
  C4, as stated: a submission whose command matches a deny-list pattern leaves the job
  registry unchanged. It does not: \<open>exec_command\<close> purges before it checks the command.
  In \<open>demo_two\<close> the first job ended at time 10; the rejected submission of
  \<open>rm -rf /\<close> at time 5000 evicts it.
\<close>

theorem rejected_submission_changes_registry:
  "is_blocked_command (req_command rm_req) = Some (reason RM_ROOT)
   \<and> fst (step (Exec rm_req 5000 5000) demo_two) = Http_error 400 (reason RM_ROOT)
   \<and> jobs demo_two = [0, 1]
   \<and> jobs (snd (step (Exec rm_req 5000 5000) demo_two)) = [1]"
  by (simp add: rm_blocked step_def exec_command_def purge_old_jobs_def is_expired_iff)
     (simp add: demo_two_eq yes_job_def)

text \<open>
  C4, amended: a submission whose command matches a deny-list pattern is answered at
  once with the rejection (status 400 and the reason), and no job is created: no job
  object, no runner task and no identifier is added, and the registry afterwards is the
  registry before with the expired jobs purged.
\<close>

theorem rejected_submission_creates_no_job:
  assumes "is_blocked_command (req_command req) = Some r"
  shows "step (Exec req t t') s = (Http_error 400 r, purge_old_jobs t s)
         \<and> jobs (purge_old_jobs t s) = filter (\<lambda>j. \<not> is_expired t s j) (jobs s)
         \<and> store (purge_old_jobs t s) = store s
         \<and> tasks (purge_old_jobs t s) = tasks s
         \<and> next_id (purge_old_jobs t s) = next_id s
         \<and> kills (purge_old_jobs t s) = kills s"
  using assms by (simp add: step_def exec_command_def purge_old_jobs_def)

theorem rejected_submission_creates_no_job_witness:
  "is_blocked_command (req_command rm_req) = Some (reason RM_ROOT)
   \<and> step (Exec rm_req 15 15) demo_two = (Http_error 400 (reason RM_ROOT), demo_two)"
proof -
  have "purge_old_jobs 15 demo_two = demo_two"
    by (simp add: purge_old_jobs_def is_expired_iff) (simp add: demo_two_eq yes_job_def)
  with rejected_submission_creates_no_job [OF rm_blocked, of 15 15 demo_two] rm_blocked
  show ?thesis by simp
qed

text \<open>
  C8. Whatever the registry and the time \<open>now\<close>, the purge removes exactly the jobs
  whose status is terminal and whose \<open>finished_at\<close> lies more than 3600 before \<open>now\<close>;
  the other jobs stay, in their order, and no job object is changed. The listing and the
  submission purge first: the listing answers with the purged registry, and after a
  submission the registry is the purged one, followed by the new job if there is one.
\<close>

theorem purge_removes_exactly_expired:
  "jobs (purge_old_jobs now s)
     = filter (\<lambda>j. \<not> (\<exists>job f. store s j = Some job \<and> status job \<noteq> Running
                              \<and> finished_at job = Some f \<and> now - f > 3600)) (jobs s)
   \<and> store (purge_old_jobs now s) = store s
   \<and> tasks (purge_old_jobs now s) = tasks s
   \<and> step (List_jobs now) s
     = (Job_list (concat (map (summary s) (jobs (purge_old_jobs now s)))),
        purge_old_jobs now s)
   \<and> jobs (snd (step (Exec req now t') s))
     = jobs (purge_old_jobs now s)
       @ (case is_blocked_command (req_command req) of None \<Rightarrow> [next_id s] | Some r \<Rightarrow> [])"
proof -
  have "jobs (purge_old_jobs now s)
     = filter (\<lambda>j. \<not> (\<exists>job f. store s j = Some job \<and> status job \<noteq> Running
                              \<and> finished_at job = Some f \<and> now - f > 3600)) (jobs s)"
    unfolding purge_old_jobs_def is_expired_iff by simp
  moreover have "summary (purge_old_jobs now s) = summary s"
    by (rule ext) (simp add: summary_def purge_old_jobs_def)
  ultimately show ?thesis
    by (simp add: step_def list_jobs_def exec_command_def Let_def split: option.splits)
       (simp add: purge_old_jobs_def)
qed

theorem purge_removes_exactly_expired_witness:
  "jobs demo_two = [0, 1] \<and> jobs (purge_old_jobs 3610 demo_two) = [0, 1]
   \<and> jobs (purge_old_jobs 3611 demo_two) = [1]
   \<and> jobs (snd (step (Exec yes_req 3611 3611) demo_two)) = [1, 2]"
proof -
  have a: "filter (\<lambda>j. \<not> (\<exists>job f. store demo_two j = Some job \<and> status job \<noteq> Running
                              \<and> finished_at job = Some f \<and> 3610 - f > 3600)) (jobs demo_two)
           = [0, 1]"
    by (simp add: demo_two_eq yes_job_def)
  have b: "filter (\<lambda>j. \<not> (\<exists>job f. store demo_two j = Some job \<and> status job \<noteq> Running
                              \<and> finished_at job = Some f \<and> 3611 - f > 3600)) (jobs demo_two)
           = [1]"
    by (simp add: demo_two_eq yes_job_def)
  have c: "next_id demo_two = 2" and d: "jobs demo_two = [0, 1]"
    by (simp_all add: demo_two_eq)
  note t1 = purge_removes_exactly_expired [of 3610 demo_two yes_req 0]
  note t2 = purge_removes_exactly_expired [of 3611 demo_two yes_req 3611]
  from t1 have p1: "jobs (purge_old_jobs 3610 demo_two)
     = filter (\<lambda>j. \<not> (\<exists>job f. store demo_two j = Some job \<and> status job \<noteq> Running
                              \<and> finished_at job = Some f \<and> 3610 - f > 3600)) (jobs demo_two)"
    by (rule conjunct1)
  from t2 have p2: "jobs (purge_old_jobs 3611 demo_two)
     = filter (\<lambda>j. \<not> (\<exists>job f. store demo_two j = Some job \<and> status job \<noteq> Running
                              \<and> finished_at job = Some f \<and> 3611 - f > 3600)) (jobs demo_two)"
    by (rule conjunct1)
  from t2 have p3: "jobs (snd (step (Exec yes_req 3611 3611) demo_two))
     = jobs (purge_old_jobs 3611 demo_two)
       @ (case is_blocked_command (req_command yes_req) of None \<Rightarrow> [next_id demo_two]
          | Some r \<Rightarrow> [])"
    by blast
  have q1: "jobs (purge_old_jobs 3610 demo_two) = [0, 1]" by (rule trans [OF p1 a])
  have q2: "jobs (purge_old_jobs 3611 demo_two) = [1]" by (rule trans [OF p2 b])
  from p3 have q3: "jobs (snd (step (Exec yes_req 3611 3611) demo_two)) = [1, 2]"
    by (simp add: q2 c yes_not_blocked)
  from d q1 q2 q3 show ?thesis by blast
qed

section \<open>The gate\<close>

lemma rstrip_Nil [simp]: "rstrip [] = []"
  by (simp add: rstrip_def)

lemma strip_rstrip: "strip s = rstrip (dropWhile isspace s)"
  by (simp add: strip_def rstrip_def)

lemma rstrip_all_space: "(\<And>c. c \<in> set u \<Longrightarrow> isspace c) \<Longrightarrow> rstrip u = []"
  by (simp add: rstrip_def)

lemma rstrip_append:
  "rstrip (w @ u) = (if \<forall>c \<in> set u. isspace c then rstrip w else w @ rstrip u)"
proof (cases "\<forall>c \<in> set u. isspace c")
  case True
  then have "dropWhile isspace (rev u @ rev w) = dropWhile isspace (rev w)"
    by (intro dropWhile_append2) simp
  with True show ?thesis by (simp add: rstrip_def)
next
  case False
  then obtain c where "c \<in> set (rev u)" "\<not> isspace c" by auto
  then have "dropWhile isspace (rev u @ rev w) = dropWhile isspace (rev u) @ rev w"
    by (rule dropWhile_append1)
  with False show ?thesis by (auto simp: rstrip_def)
qed

lemma rstrip_nonspace_last: "w \<noteq> [] \<Longrightarrow> \<not> isspace (last w) \<Longrightarrow> rstrip w = w"
  by (cases w rule: rev_cases) (simp_all add: rstrip_def)

lemma rstrip_word: "w \<noteq> [] \<Longrightarrow> (\<And>c. c \<in> set w \<Longrightarrow> \<not> isspace c) \<Longrightarrow> rstrip w = w"
  by (rule rstrip_nonspace_last) simp_all

lemma rstrip_hd:
  assumes "v \<noteq> []" and "\<not> isspace (hd v)"
  shows "rstrip v \<noteq> [] \<and> hd (rstrip v) = hd v"
proof -
  from assms obtain c cs where v: "v = [c] @ cs" and c: "\<not> isspace c" by (cases v) auto
  have "rstrip [c] = [c]" using c by (simp add: rstrip_def)
  then show ?thesis unfolding v rstrip_append by simp
qed

lemma sub_spaces_word:
  "(\<And>c. c \<in> set w \<Longrightarrow> \<not> isspace c) \<Longrightarrow> sub_spaces (w @ u) = w @ sub_spaces u"
  by (induction w) simp_all

lemma sub_spaces_gap:
  assumes "sp \<noteq> []" and "\<And>c. c \<in> set sp \<Longrightarrow> isspace c" and "x = [] \<or> \<not> isspace (hd x)"
  shows "sub_spaces (sp @ x) = 32 # sub_spaces x"
proof -
  from assms(1) obtain c cs where sp: "sp = c # cs" by (cases sp) auto
  have "dropWhile isspace (cs @ x) = dropWhile isspace x"
    using assms(2) by (intro dropWhile_append2) (simp add: sp)
  also have "\<dots> = x" using assms(3) by (cases x) auto
  finally show ?thesis using assms(2) by (simp add: sp)
qed

lemma spec_words_unfold:
  "spec_words s =
     (if dropWhile isspace s = [] then []
      else takeWhile (\<lambda>c. \<not> isspace c) (dropWhile isspace s)
           # spec_words (dropWhile (\<lambda>c. \<not> isspace c) (dropWhile isspace s)))"
  by (subst spec_words.simps) (simp add: Let_def)

lemma join_spaces_Cons:
  "join_spaces (w # ws) = (if ws = [] then w else w @ 32 # join_spaces ws)"
  by (cases ws) simp_all

text \<open>
  The normalisation of the code is the one of the specification: the words of the
  command, joined by single spaces.
\<close>

lemma normalize_refines: "sub_spaces (strip s) = spec_normalize s"
proof -
  have "sub_spaces (rstrip (dropWhile isspace s)) = join_spaces (spec_words s)"
  proof (induction s rule: spec_words.induct)
    case (1 s)
    define t where "t = dropWhile isspace s"
    show ?case
    proof (cases "t = []")
      case True
      then show ?thesis by (subst spec_words_unfold) (simp add: t_def [symmetric])
    next
      case False
      define w where "w = takeWhile (\<lambda>c. \<not> isspace c) t"
      define u where "u = dropWhile (\<lambda>c. \<not> isspace c) t"
      have t: "t = w @ u" by (simp add: w_def u_def)
      have hd_t: "\<not> isspace (hd t)"
        using False hd_dropWhile [of isspace s] by (simp add: t_def)
      have w_ne: "w \<noteq> []" using False hd_t by (cases t) (auto simp: w_def)
      have w_ns: "\<And>c. c \<in> set w \<Longrightarrow> \<not> isspace c"
        unfolding w_def by (auto dest: set_takeWhileD)
      have IH: "sub_spaces (rstrip (dropWhile isspace u)) = join_spaces (spec_words u)"
        using "1.IH" [OF t_def False] by (simp add: u_def)
      have words: "spec_words s = w # spec_words u"
        using False by (subst spec_words_unfold) (simp add: t_def w_def u_def)
      show ?thesis
      proof (cases "\<forall>c \<in> set u. isspace c")
        case True
        then have "dropWhile isspace u = []" by simp
        then have "spec_words u = []" by (subst spec_words_unfold) simp
        moreover have "rstrip t = w"
          using True w_ne w_ns by (simp add: t rstrip_append rstrip_word)
        moreover have "sub_spaces w = w"
          using sub_spaces_word [OF w_ns, of w "[]"] by simp
        ultimately show ?thesis by (simp add: words t_def [symmetric])
      next
        case False
        define sp where "sp = takeWhile isspace u"
        define v where "v = dropWhile isspace u"
        have u: "u = sp @ v" by (simp add: sp_def v_def)
        have v_ne: "v \<noteq> []" using False by (auto simp: v_def)
        have hd_v: "\<not> isspace (hd v)"
          using v_ne hd_dropWhile [of isspace u] by (simp add: v_def)
        have u_ne: "u \<noteq> []" using False by auto
        have "isspace (hd u)"
          using u_ne hd_dropWhile [of "\<lambda>c. \<not> isspace c" t] by (simp add: u_def)
        then have sp_ne: "sp \<noteq> []" using u_ne by (cases u) (auto simp: sp_def)
        have sp_s: "\<And>c. c \<in> set sp \<Longrightarrow> isspace c"
          unfolding sp_def by (auto dest: set_takeWhileD)
        have v_not_all: "\<not> (\<forall>c \<in> set v. isspace c)"
          using v_ne hd_v by (cases v) auto
        have "rstrip (sp @ v) = sp @ rstrip v"
          using v_not_all by (auto simp: rstrip_append)
        then have r_u: "rstrip u = sp @ rstrip v" using u by simp
        have "rstrip (w @ u) = w @ rstrip u"
          using False by (auto simp: rstrip_append)
        then have "rstrip t = w @ sp @ rstrip v" using t r_u by simp
        then have "sub_spaces (rstrip t) = w @ sub_spaces (sp @ rstrip v)"
          using sub_spaces_word [OF w_ns] by simp
        also have "sub_spaces (sp @ rstrip v) = 32 # sub_spaces (rstrip v)"
          using sp_ne sp_s rstrip_hd [OF v_ne hd_v] hd_v by (intro sub_spaces_gap) auto
        finally have lhs: "sub_spaces (rstrip t) = w @ 32 # join_spaces (spec_words u)"
          using IH by (simp add: v_def)
        have "spec_words u \<noteq> []"
          using v_ne by (subst spec_words_unfold) (simp add: v_def)
        then show ?thesis using lhs by (simp add: words join_spaces_Cons t_def [symmetric])
      qed
    qed
  qed
  then show ?thesis by (simp add: strip_rstrip spec_normalize_def)
qed

lemma first_match_None:
  "first_match ps cmd = None \<longleftrightarrow> (\<forall>p \<in> set ps. \<not> search p cmd)"
  by (induction ps) simp_all

lemma first_match_Some:
  "i < length ps \<Longrightarrow> search (ps ! i) cmd \<Longrightarrow> (\<And>k. k < i \<Longrightarrow> \<not> search (ps ! k) cmd)
   \<Longrightarrow> first_match ps cmd = Some (reason (ps ! i))"
proof (induction ps arbitrary: i)
  case Nil
  then show ?case by simp
next
  case (Cons p ps)
  show ?case
  proof (cases i)
    case 0
    with Cons.prems show ?thesis by simp
  next
    case (Suc n)
    have "\<not> search p cmd" using Cons.prems(3) [of 0] Suc by simp
    moreover have "first_match ps cmd = Some (reason (ps ! n))"
    proof (rule Cons.IH)
      show "n < length ps" using Cons.prems(1) Suc by simp
      show "search (ps ! n) cmd" using Cons.prems(2) Suc by simp
      show "\<not> search (ps ! k) cmd" if "k < n" for k
        using Cons.prems(3) [of "Suc k"] that Suc by simp
    qed
    ultimately show ?thesis using Suc by simp
  qed
qed

text \<open>
  C5. For every command, the gate normalises the whitespace (the command is trimmed and
  every run of whitespace becomes one space: the result is the words of the command
  joined by single spaces) and tests the normalised string against the patterns in
  order. It returns none exactly when no pattern matches; otherwise the first pattern
  that matches decides, and the reason quotes that pattern's text. The check is a
  function of the command alone: it reads and writes no state.
\<close>

theorem gate_first_match_wins:
  "sub_spaces (strip c) = spec_normalize c
   \<and> (is_blocked_command c = None
        \<longleftrightarrow> (\<forall>p \<in> set BLOCKED_PATTERNS. \<not> search p (spec_normalize c)))
   \<and> (\<forall>i < length BLOCKED_PATTERNS.
         search (BLOCKED_PATTERNS ! i) (spec_normalize c)
         \<and> (\<forall>k < i. \<not> search (BLOCKED_PATTERNS ! k) (spec_normalize c))
         \<longrightarrow> is_blocked_command c
             = Some (ustr ''Blocked: command matches dangerous pattern (''
                     @ pattern (BLOCKED_PATTERNS ! i) @ ustr '')''))"
proof (intro conjI allI impI)
  show "sub_spaces (strip c) = spec_normalize c" by (rule normalize_refines)
  show "is_blocked_command c = None
        \<longleftrightarrow> (\<forall>p \<in> set BLOCKED_PATTERNS. \<not> search p (spec_normalize c))"
    by (simp add: is_blocked_command_def normalize_refines first_match_None)
  fix i
  assume i: "i < length BLOCKED_PATTERNS"
    and m: "search (BLOCKED_PATTERNS ! i) (spec_normalize c)
            \<and> (\<forall>k < i. \<not> search (BLOCKED_PATTERNS ! k) (spec_normalize c))"
  have "first_match BLOCKED_PATTERNS (spec_normalize c)
        = Some (reason (BLOCKED_PATTERNS ! i))"
    using i m by (intro first_match_Some) auto
  then show "is_blocked_command c
             = Some (ustr ''Blocked: command matches dangerous pattern (''
                     @ pattern (BLOCKED_PATTERNS ! i) @ ustr '')'')"
    by (simp add: is_blocked_command_def normalize_refines reason_def)
qed

lemma ls_norm: "sub_spaces (strip ([32] @ ustr ''ls'' @ [9, 32] @ ustr ''-R'' @ [10]))
                = ustr ''ls -R''"
  by (simp add: ustr_def strip_def isspace_def)

lemma ls_search: "search LS_RECURSIVE (ustr ''ls -R'')"
  by (simp add: LS_RECURSIVE_def rx_defs range_az ustr_def)

lemma ls_not_rm: "\<not> search RM_ROOT (ustr ''ls -R'')"
  by (simp add: RM_ROOT_def rx_defs range_az ustr_def)

theorem gate_first_match_wins_witness:
  "is_blocked_command ([32] @ ustr ''ls'' @ [9, 32] @ ustr ''-R'' @ [10])
   = Some (ustr ''Blocked: command matches dangerous pattern (^(sudo'' @ [92]
           @ ustr ''s+)?ls'' @ [92] @ ustr ''s+(-[a-z]*r[a-z]*))'')
   \<and> is_blocked_command (ustr ''yes'') = None"
proof -
  let ?c = "[32] @ ustr ''ls'' @ [9, 32] @ ustr ''-R'' @ [10]"
  note g = gate_first_match_wins [of ?c]
  from g have n: "spec_normalize ?c = ustr ''ls -R''" using ls_norm by simp
  have one: "(1::nat) < length BLOCKED_PATTERNS" by (simp add: BLOCKED_PATTERNS_def)
  have m: "search (BLOCKED_PATTERNS ! 1) (spec_normalize ?c)
           \<and> (\<forall>k < 1. \<not> search (BLOCKED_PATTERNS ! k) (spec_normalize ?c))"
    unfolding n using ls_search ls_not_rm by (simp add: BLOCKED_PATTERNS_def)
  from g one m have "is_blocked_command ?c
      = Some (ustr ''Blocked: command matches dangerous pattern (''
              @ pattern (BLOCKED_PATTERNS ! 1) @ ustr '')'')"
    by blast
  then have a: "is_blocked_command ?c
   = Some (ustr ''Blocked: command matches dangerous pattern (^(sudo'' @ [92]
           @ ustr ''s+)?ls'' @ [92] @ ustr ''s+(-[a-z]*r[a-z]*))'')"
    by (simp add: BLOCKED_PATTERNS_def LS_RECURSIVE_def ustr_def)
  note h = gate_first_match_wins [of "ustr ''yes''"]
  from h have n': "spec_normalize (ustr ''yes'') = [121, 101, 115]" using yes_norm by simp
  have "\<forall>p \<in> set BLOCKED_PATTERNS. \<not> search p (spec_normalize (ustr ''yes''))"
    unfolding n' using yes_rm yes_ls by (simp add: BLOCKED_PATTERNS_def)
  with h have b: "is_blocked_command (ustr ''yes'') = None" by blast
  from a b show ?thesis by blast
qed

section \<open>Invariants of the transition system\<close>

lemma wf_init: "wf_sys init"
  by (simp add: wf_sys_def init_def)

lemma wf_purge: "wf_sys s \<Longrightarrow> wf_sys (purge_old_jobs now s)"
  by (simp add: wf_sys_def purge_old_jobs_def)

lemma wf_task_set: "wf_sys s \<Longrightarrow> j < next_id s \<Longrightarrow> wf_sys (task_set j c s)"
  by (auto simp: wf_sys_def task_set_def)

lemma wf_job_update: "wf_sys s \<Longrightarrow> job_update j f s = Some s' \<Longrightarrow> wf_sys s'"
  by (auto simp: wf_sys_def job_update_def jobs_get_def split: option.splits if_splits)

lemma wf_append_line: "wf_sys s \<Longrightarrow> wf_sys (append_line j l s)"
  by (auto simp: wf_sys_def append_line_def split: option.splits)

lemma wf_kills: "wf_sys s \<Longrightarrow> wf_sys (s\<lparr>kills := ks\<rparr>)"
  by (simp add: wf_sys_def)

lemma wf_run_failed: "wf_sys s \<Longrightarrow> j < next_id s \<Longrightarrow> wf_sys (run_failed j e now s)"
proof -
  assume w: "wf_sys s" and j: "j < next_id s"
  let ?f = "\<lambda>job. job\<lparr>status := Error, error := Some e, finished_at := Some now\<rparr>"
  show ?thesis
  proof (cases "job_update j ?f s")
    case None
    then show ?thesis using w j by (simp add: run_failed_def wf_task_set)
  next
    case (Some s')
    then have "wf_sys s'" and "next_id s' = next_id s"
      using w by (auto simp: wf_job_update job_update_def split: option.splits)
    then show ?thesis using Some j by (simp add: run_failed_def wf_task_set)
  qed
qed

lemma wf_finish_with: "wf_sys s \<Longrightarrow> j < next_id s \<Longrightarrow> wf_sys (finish_with j f s)"
proof -
  assume w: "wf_sys s" and j: "j < next_id s"
  show ?thesis
  proof (cases "job_update j f s")
    case None
    then show ?thesis using w j by (simp add: finish_with_def wf_task_set)
  next
    case (Some s')
    then have "wf_sys s'" and "next_id s' = next_id s"
      using w by (auto simp: wf_job_update job_update_def split: option.splits)
    then show ?thesis using Some j by (simp add: finish_with_def wf_task_set)
  qed
qed

lemma wf_run_step: "wf_sys s \<Longrightarrow> j < next_id s \<Longrightarrow> wf_sys (run_step e c j s)"
proof (induction e c j s rule: run_step.induct)
  case (1 uu p j s)
  show ?case
  proof (cases "job_update j (\<lambda>job. job\<lparr>process := Some p\<rparr>) s")
    case None
    then show ?thesis using 1 by (simp add: wf_task_set)
  next
    case (Some s')
    then have "wf_sys s'" and "next_id s' = next_id s"
      using 1 by (auto simp: wf_job_update job_update_def split: option.splits)
    then show ?thesis using Some 1 by (simp add: wf_task_set)
  qed
next
  case (6 uz k now p j s)
  have "wf_sys (s\<lparr>kills := kills s @ [p]\<rparr>)" using 6 by (simp add: wf_kills)
  then show ?case using 6 by (cases k) (simp_all add: wf_task_set wf_run_failed)
qed (simp_all add: wf_run_failed wf_finish_with wf_task_set wf_append_line)

lemma step_task:
  "task_of e = Some j
   \<Longrightarrow> step e s = (Task_step, case tasks s j of None \<Rightarrow> s | Some c \<Rightarrow> run_step e c j s)"
  by (cases e) (auto simp: step_def)

lemma wf_step: "wf_sys s \<Longrightarrow> wf_sys (snd (step e s))"
proof (cases "task_of e")
  case None
  assume w: "wf_sys s"
  from None show ?thesis
  proof (cases e)
    case (Exec req t t')
    have "wf_sys (purge_old_jobs t s)" using w by (rule wf_purge)
    then show ?thesis
      by (auto simp: Exec step_def exec_command_def wf_sys_def Let_def less_Suc_eq
               split: option.splits)
  next
    case (Cancel j k now)
    show ?thesis using w
      by (auto simp: Cancel step_def cancel_job_def wf_sys_def jobs_get_def Let_def
               split: option.splits if_splits)
  next
    case (List_jobs now)
    show ?thesis using w by (simp add: List_jobs step_def list_jobs_def wf_purge Let_def)
  qed simp_all
next
  case (Some j)
  assume w: "wf_sys s"
  have "snd (step e s) = (case tasks s j of None \<Rightarrow> s | Some c \<Rightarrow> run_step e c j s)"
    using Some by (simp add: step_task)
  moreover have "wf_sys (run_step e c j s)" if "tasks s j = Some c" for c
  proof -
    from that w have "j < next_id s" by (auto simp: wf_sys_def)
    with w show ?thesis by (rule wf_run_step)
  qed
  ultimately show ?thesis using w by (simp split: option.splits)
qed

lemma wf_exec_trace: "wf_sys s \<Longrightarrow> wf_sys (exec_trace es s)"
  by (induction es arbitrary: s) (simp_all add: wf_step)

lemmas run_defs = job_update_def jobs_get_def task_set_def run_failed_def finish_with_def
  set_timeout_def set_finished_def append_line_def

text \<open>
  A piece of a runner changes no task but its own, and it changes the output of no job
  but, when it is a \<open>readline\<close> that returned a line, its own, by appending that line.
\<close>

lemma run_step_tasks: "j' \<noteq> j \<Longrightarrow> tasks (run_step e c j s) j' = tasks s j'"
  by (induction e c j s rule: run_step.induct)
     (auto simp: run_defs Let_def split: option.splits)

lemma run_step_output:
  assumes "store s j' = Some job"
  shows "\<exists>job'. store (run_step e c j s) j' = Some job'
           \<and> (output_lines job' = output_lines job
               \<or> (j' = j \<and> (\<exists>l. output_lines job' = output_lines job @ [l])))"
  using assms
  by (induction e c j s rule: run_step.induct)
     (auto simp: run_defs Let_def split: option.splits)

lemma step_output:
  assumes "wf_sys s" and "store s j = Some job"
  shows "\<exists>job'. store (snd (step e s)) j = Some job'
           \<and> (output_lines job' = output_lines job
               \<or> (task_of e = Some j \<and> (\<exists>l. output_lines job' = output_lines job @ [l])))"
proof (cases "task_of e")
  case None
  from assms have lt: "j < next_id s" by (auto simp: wf_sys_def)
  from None show ?thesis
  proof (cases e)
    case (Exec req t t')
    show ?thesis using assms(2) lt
      by (auto simp: Exec step_def exec_command_def purge_old_jobs_def Let_def
               split: option.splits)
  next
    case (Cancel i k now)
    show ?thesis using assms(2)
      by (auto simp: Cancel step_def cancel_job_def jobs_get_def Let_def
               split: option.splits if_splits)
  next
    case (List_jobs now)
    show ?thesis using assms(2)
      by (simp add: List_jobs step_def list_jobs_def purge_old_jobs_def Let_def)
  qed simp_all
next
  case (Some i)
  show ?thesis
  proof (cases "tasks s i")
    case None
    then show ?thesis using Some assms(2) by (simp add: step_task)
  next
    case (Some c)
    from run_step_output [OF assms(2), of e c i] \<open>task_of e = Some i\<close> Some
    show ?thesis by (auto simp: step_task)
  qed
qed

lemma step_tasks_other:
  assumes "wf_sys s" and "tasks s j = Some c" and "task_of e \<noteq> Some j"
  shows "tasks (snd (step e s)) j = Some c"
proof (cases "task_of e")
  case None
  from assms have lt: "j < next_id s" by (auto simp: wf_sys_def)
  from None show ?thesis
  proof (cases e)
    case (Exec req t t')
    show ?thesis using assms(2) lt
      by (auto simp: Exec step_def exec_command_def purge_old_jobs_def Let_def
               split: option.splits)
  next
    case (Cancel i k now)
    show ?thesis using assms(2)
      by (auto simp: Cancel step_def cancel_job_def Let_def split: option.splits if_splits)
  next
    case (List_jobs now)
    show ?thesis using assms(2)
      by (simp add: List_jobs step_def list_jobs_def purge_old_jobs_def Let_def)
  qed simp_all
next
  case (Some i)
  with assms(3) have "j \<noteq> i" by auto
  then show ?thesis using Some assms(2)
    by (cases "tasks s i") (simp_all add: step_task run_step_tasks)
qed

text \<open>Over a run: the output of a job only grows.\<close>

lemma exec_trace_output_prefix:
  assumes "wf_sys s" and "store s j = Some job"
  shows "\<exists>job'. store (exec_trace es s) j = Some job'
           \<and> prefix (output_lines job) (output_lines job')"
  using assms
proof (induction es arbitrary: s job)
  case Nil
  then show ?case by simp
next
  case (Cons e es)
  from step_output [OF Cons.prems, of e] obtain job1
    where j1: "store (snd (step e s)) j = Some job1"
      and p1: "prefix (output_lines job) (output_lines job1)"
    by auto
  from Cons.IH [OF wf_step [OF Cons.prems(1)] j1] obtain job'
    where "store (exec_trace es (snd (step e s))) j = Some job'"
      and "prefix (output_lines job1) (output_lines job')"
    by auto
  with p1 show ?case by (auto intro: prefix_order.trans)
qed

text \<open>
  While the runner of a job takes no step, its task stays where it is and the output of
  the job stays as it is.
\<close>

lemma exec_trace_idle:
  assumes "wf_sys s" and "tasks s j = Some c" and "store s j = Some job"
    and "\<forall>e \<in> set es. task_of e \<noteq> Some j"
  shows "tasks (exec_trace es s) j = Some c
         \<and> (\<exists>job'. store (exec_trace es s) j = Some job'
                    \<and> output_lines job' = output_lines job)"
  using assms
proof (induction es arbitrary: s job)
  case Nil
  then show ?case by simp
next
  case (Cons e es)
  from Cons.prems(4) have e: "task_of e \<noteq> Some j" and es: "\<forall>e \<in> set es. task_of e \<noteq> Some j"
    by simp_all
  from step_output [OF Cons.prems(1) Cons.prems(3), of e] e obtain job1
    where j1: "store (snd (step e s)) j = Some job1"
      and o1: "output_lines job1 = output_lines job"
    by auto
  have t1: "tasks (snd (step e s)) j = Some c"
    using Cons.prems(1) Cons.prems(2) e by (rule step_tasks_other)
  from Cons.IH [OF wf_step [OF Cons.prems(1)] t1 j1 es] o1
  show ?case by simp
qed

section \<open>The timeout\<close>

lemma exec_trace_append: "exec_trace (es @ es') s = exec_trace es' (exec_trace es s)"
  by (induction es arbitrary: s) simp_all

lemma hup_norm: "sub_spaces (strip (ustr ''kill -HUP $$'')) = ustr ''kill -HUP $$''"
  by (simp add: ustr_def strip_def isspace_def)

lemma hup_rm: "\<not> search RM_ROOT (ustr ''kill -HUP $$'')"
  by (simp add: RM_ROOT_def rx_defs ustr_def)

lemma hup_ls: "\<not> search LS_RECURSIVE (ustr ''kill -HUP $$'')"
  by (simp add: LS_RECURSIVE_def rx_defs ustr_def)

lemma hup_not_blocked: "is_blocked_command (req_command hup_req) = None"
  by (simp add: hup_req_def is_blocked_command_def BLOCKED_PATTERNS_def hup_norm hup_rm hup_ls)

text \<open>
  C6, as stated: the return code recorded at a timeout is a sentinel distinct from any
  real exit code. It is not distinct from every return code the service records for a
  child that ended by itself: \<open>kill -HUP $$\<close> passes the gate, its shell is terminated
  by signal 1, \<open>proc.returncode\<close> is \<open>-1\<close>, and the job is recorded as finished with
  return code \<open>-1\<close>, the value a timed-out job gets.
\<close>

theorem timeout_sentinel_is_a_reported_returncode:
  "is_blocked_command (req_command hup_req) = None
   \<and> map_option status (jobs_get demo_hup 0) = Some Finished
   \<and> map_option returncode (jobs_get demo_hup 0) = Some (Some (- 1))
   \<and> map_option status (jobs_get demo_timed_out 0) = Some Timeout
   \<and> map_option returncode (jobs_get demo_timed_out 0) = Some (Some (- 1))"
  by (simp add: hup_not_blocked demo_hup_def demo_timed_out_def demo_reading_eq sys_defs
                init_def yes_job_def)

text \<open>
  C6, amended. When \<open>wait_for\<close> times out while the runner of a job is reading, the
  runner kills the child and waits for it. Whatever other requests and other jobs' tasks
  do meanwhile (\<open>es\<close>), once the child is reaped the job, if it is still in the registry,
  gets status timeout, return code \<open>-1\<close>, and as \<open>stdout\<close> the join of the output
  lines it had when the timeout struck. The value \<open>-1\<close> differs from the return code
  of every child that exited (an exit code is not negative), but it is the return code
  of a child that signal 1 terminated: the status, not the return code, tells a timeout.
\<close>

theorem timeout_kills_reaps_and_records:
  assumes "wf_sys s" and "tasks s j = Some (Reading p)" and "jobs_get s j = Some job"
    and "\<forall>e \<in> set es. task_of e \<noteq> Some j"
    and "j \<in> set (jobs (exec_trace es (snd (step (Timed_out j None t) s))))"
  shows "kills (snd (step (Timed_out j None t) s)) = kills s @ [p]
    \<and> tasks (snd (step (Timed_out j None t) s)) j = Some (Wait_killed p)
    \<and> (\<exists>job'. jobs_get (exec_trace (Timed_out j None t # es @ [Wait_ok j w now]) s) j
                 = Some job'
          \<and> status job' = Timeout \<and> returncode job' = Some (- 1)
          \<and> stdout job' = Some (concat (output_lines job))
          \<and> output_lines job' = output_lines job
          \<and> finished_at job' = Some now)
    \<and> tasks (exec_trace (Timed_out j None t # es @ [Wait_ok j w now]) s) j = Some Ended
    \<and> (\<forall>b. returncode_of (Exited b) \<noteq> - 1)
    \<and> returncode_of (Signaled 1) = - 1"
proof -
  let ?s1 = "snd (step (Timed_out j None t) s)"
  let ?s2 = "exec_trace es ?s1"
  from assms(3) have st: "store s j = Some job" and inj: "j \<in> set (jobs s)"
    by (auto simp: jobs_get_def split: if_splits)
  have s1: "?s1 = task_set j (Wait_killed p) (s\<lparr>kills := kills s @ [p]\<rparr>)"
    using assms(2) by (simp add: step_task Let_def)
  have k1: "kills ?s1 = kills s @ [p]" and t1: "tasks ?s1 j = Some (Wait_killed p)"
    and st1: "store ?s1 j = Some job"
    using st by (simp_all add: s1 task_set_def)
  have w1: "wf_sys ?s1" using assms(1) by (rule wf_step)
  from exec_trace_idle [OF w1 t1 st1 assms(4)] obtain job2
    where t2: "tasks ?s2 j = Some (Wait_killed p)" and st2: "store ?s2 j = Some job2"
      and o2: "output_lines job2 = output_lines job"
    by auto
  have g2: "jobs_get ?s2 j = Some job2" using assms(5) st2 by (simp add: jobs_get_def)
  have s3: "snd (step (Wait_ok j w now) ?s2)
            = task_set j Ended (?s2\<lparr>store := (store ?s2)(j \<mapsto> set_timeout now job2)\<rparr>)"
    using t2 g2 by (simp add: step_task finish_with_def job_update_def)
  have "jobs_get (snd (step (Wait_ok j w now) ?s2)) j = Some (set_timeout now job2)"
    using assms(5) by (simp add: s3 task_set_def jobs_get_def)
  moreover have "tasks (snd (step (Wait_ok j w now) ?s2)) j = Some Ended"
    by (simp add: s3 task_set_def)
  moreover have "\<forall>b. returncode_of (Exited b) \<noteq> - 1"
  proof
    fix b :: "8 word"
    have "0 \<le> uint b" by simp
    then have "uint b \<noteq> - 1" by linarith
    then show "returncode_of (Exited b) \<noteq> - 1" by simp
  qed
  ultimately show ?thesis using k1 t1 o2 by (simp add: exec_trace_append set_timeout_def)
qed

theorem timeout_kills_reaps_and_records_witness:
  "wf_sys demo_reading \<and> tasks demo_reading 0 = Some (Reading 7)
   \<and> kills (snd (step (Timed_out 0 None 8) demo_reading)) = [7]
   \<and> (\<exists>job'. jobs_get (exec_trace [Timed_out 0 None 8, Cancel 0 True 9, Exec yes_req 10 10,
                                     Wait_ok 0 (Signaled 9) 11] demo_reading) 0 = Some job'
          \<and> status job' = Timeout \<and> returncode job' = Some (- 1)
          \<and> stdout job' = Some y_line \<and> finished_at job' = Some 11)"
proof -
  let ?job = "yes_job\<lparr>output_lines := [y_line], process := Some 7\<rparr>"
  let ?es = "[Cancel 0 True 9, Exec yes_req 10 10]"
  have h1: "wf_sys demo_reading" by (simp add: demo_reading_eq wf_sys_def)
  have h2: "tasks demo_reading 0 = Some (Reading 7)" by (simp add: demo_reading_eq)
  have h3: "jobs_get demo_reading 0 = Some ?job" by (simp add: demo_reading_eq jobs_get_def)
  have h4: "\<forall>e \<in> set ?es. task_of e \<noteq> Some 0" by simp
  have h5: "0 \<in> set (jobs (exec_trace ?es (snd (step (Timed_out 0 None 8) demo_reading))))"
    by (simp add: demo_reading_eq sys_defs yes_not_blocked yes_job_def)
  have k: "kills demo_reading = []" by (simp add: demo_reading_eq)
  from timeout_kills_reaps_and_records [OF h1 h2 h3 h4 h5, of "Signaled 9" 11] h1 h2 k
  show ?thesis by (auto simp: yes_job_def)
qed


section \<open>Streaming\<close>

text \<open>
  One resumption of the generator of job \<open>j\<close>, whose cursor is within the output of
  the job object it holds.
\<close>

lemma gen_resume_step:
  assumes "store u j = Some job" and "gen_job h = j" and "idx h \<le> length (output_lines job)"
    and "gen_resume u h = (out, h')"
  shows "gen_job h' = j \<and> idx h' \<le> length (output_lines job)
    \<and> map data_chunk (take (idx h) (output_lines job)) @ lines_of [out]
      = map data_chunk (take (idx h') (output_lines job))
    \<and> idx h' = idx h + length (lines_of [out])
    \<and> (\<forall>c. out = Line_chunk c \<longrightarrow> idx h < length (output_lines job)
            \<and> c = data_chunk (output_lines job ! idx h))
    \<and> (\<forall>c. out = Done_chunk c \<longrightarrow> status job \<noteq> Running \<and> c = done_chunk (status job)
            \<and> idx h = length (output_lines job))
    \<and> (loc h = At_poll \<and> j \<notin> set (jobs u) \<longrightarrow> out = Stopped)
    \<and> (out = Sleeping \<longrightarrow> loc h' = At_poll)
    \<and> (out = Stopped \<longrightarrow> loc h \<in> {After_done, Closed} \<or> j \<notin> set (jobs u))
    \<and> (out = Sleeping \<longrightarrow> status job = Running \<and> idx h = length (output_lines job))
    \<and> (closing out \<longrightarrow> loc h' \<in> {After_done, Closed})
    \<and> (loc h \<in> {After_done, Closed} \<longrightarrow> out = Stopped \<and> loc h' = Closed)
    \<and> (loc h' \<in> {After_done, Closed} \<longrightarrow> loc h \<in> {After_done, Closed} \<or> closing out)"
proof (cases "loc h")
  case At_poll
  show ?thesis
  proof (cases "j \<in> set (jobs u)")
    case True
    then have "gen_resume u h = gen_body h job"
      using At_poll assms(1,2) by (simp add: gen_resume_def jobs_get_def)
    with assms(3,4) At_poll assms(2) True show ?thesis
      by (auto simp: gen_body_def take_Suc_conv_app_nth split: if_splits)
  next
    case False
    then have "gen_resume u h = (Stopped, h\<lparr>loc := Closed\<rparr>)"
      using At_poll assms(2) by (simp add: gen_resume_def jobs_get_def)
    with assms(2,3,4) False At_poll show ?thesis by auto
  qed
next
  case In_loop
  then have "gen_resume u h = gen_body h job"
    using assms(1,2) by (simp add: gen_resume_def)
  with assms(3,4) In_loop assms(2) show ?thesis
    by (auto simp: gen_body_def take_Suc_conv_app_nth split: if_splits)
next
  case After_done
  then have "gen_resume u h = (Stopped, h\<lparr>loc := Closed\<rparr>)" by (simp add: gen_resume_def)
  with assms(2,3,4) After_done show ?thesis by auto
next
  case Closed
  then have "gen_resume u h = (Stopped, h)" by (simp add: gen_resume_def)
  with assms(2,3,4) Closed show ?thesis by auto
qed

lemma prefix_take_eq: "prefix xs ys \<Longrightarrow> n \<le> length xs \<Longrightarrow> take n ys = take n xs"
  by (auto simp: prefix_def)

lemma stream_run_length: "stream_run s g sched = (outs, s', g') \<Longrightarrow> length outs = length sched"
  by (induction sched arbitrary: s g outs) (auto simp: Let_def split: prod.splits)

lemma states_at_length: "length (states_at s sched) = length sched"
  by (induction sched arbitrary: s) simp_all

text \<open>After the generator has returned, every further resumption just stops.\<close>

lemma stream_run_closed:
  assumes "loc g \<in> {After_done, Closed}" and "stream_run s g sched = (outs, s', g')"
  shows "\<forall>out \<in> set outs. out = Stopped"
  using assms
proof (induction sched arbitrary: s g outs s' g')
  case Nil
  then show ?case by simp
next
  case (Cons es sched)
  obtain out g1 where r: "gen_resume (exec_trace es s) g = (out, g1)" by force
  obtain outs1 s2 g2 where rest: "stream_run (exec_trace es s) g1 sched = (outs1, s2, g2)"
    by (cases "stream_run (exec_trace es s) g1 sched") auto
  from Cons.prems(1) r have "out = Stopped \<and> loc g1 = Closed"
    by (auto simp: gen_resume_def)
  moreover from this have "\<forall>out \<in> set outs1. out = Stopped"
    using Cons.IH [OF _ rest] by simp
  moreover have "outs = out # outs1" using Cons.prems(2) r rest by simp
  ultimately show ?case by simp
qed

lemma gen_resume_closing:
  "gen_resume u h = (out, h') \<Longrightarrow> closing out \<Longrightarrow> loc h' \<in> {After_done, Closed}"
  by (auto simp: gen_resume_def gen_body_def split: gen_loc.splits option.splits if_splits)

lemma lines_of_Cons: "lines_of (out # outs) = lines_of [out] @ lines_of outs"
  by (cases out) simp_all

text \<open>Once a resumption has given the done marker or has stopped, every later one stops.\<close>

lemma stream_run_after_close:
  assumes "stream_run s g sched = (outs, s', g')" and "k < m" and "m < length outs"
    and "closing (outs ! k)"
  shows "outs ! m = Stopped"
  using assms
proof (induction sched arbitrary: s g outs s' g' k m)
  case Nil
  then show ?case by simp
next
  case (Cons es sched)
  obtain out g1 where r: "gen_resume (exec_trace es s) g = (out, g1)" by force
  obtain outs1 s2 g2 where rest: "stream_run (exec_trace es s) g1 sched = (outs1, s2, g2)"
    by (cases "stream_run (exec_trace es s) g1 sched") auto
  have outs: "outs = out # outs1" using Cons.prems(1) r rest by simp
  obtain m' where m: "m = Suc m'" using Cons.prems(2) by (cases m) auto
  have m': "m' < length outs1" using Cons.prems(3) outs m by simp
  show ?case
  proof (cases k)
    case 0
    then have "closing out" using Cons.prems(4) outs by simp
    then have "loc g1 \<in> {After_done, Closed}" using r by (rule gen_resume_closing [rotated])
    from stream_run_closed [OF this rest] m' have "outs1 ! m' = Stopped" by simp
    then show ?thesis by (simp add: outs m)
  next
    case (Suc k')
    have "outs1 ! m' = Stopped"
    proof (rule Cons.IH [OF rest _ m'])
      show "k' < m'" using Cons.prems(2) Suc m by simp
      show "closing (outs1 ! k')" using Cons.prems(4) Suc outs by simp
    qed
    then show ?thesis by (simp add: outs m)
  qed
qed

text \<open>
  What a subscriber has received so far is the output of the job up to its cursor.
\<close>

lemma stream_run_lines:
  assumes "wf_sys s" and "store s j = Some job" and "gen_job g = j"
    and "idx g \<le> length (output_lines job)" and "stream_run s g sched = (outs, s', g')"
  shows "\<exists>job'. store s' j = Some job' \<and> idx g' \<le> length (output_lines job')
           \<and> idx g' = idx g + length (lines_of outs)
           \<and> map data_chunk (take (idx g) (output_lines job)) @ lines_of outs
             = map data_chunk (take (idx g') (output_lines job'))"
  using assms
proof (induction sched arbitrary: s g job outs)
  case Nil
  then show ?case by simp
next
  case (Cons es sched)
  let ?s1 = "exec_trace es s"
  obtain out g1 where r: "gen_resume ?s1 g = (out, g1)" by force
  obtain outs1 s2 g2 where rest: "stream_run ?s1 g1 sched = (outs1, s2, g2)"
    by (cases "stream_run ?s1 g1 sched") auto
  have outs: "outs = out # outs1" and fin: "s2 = s'" "g2 = g'"
    using Cons.prems(5) r rest by simp_all
  from exec_trace_output_prefix [OF Cons.prems(1,2), of es] obtain job1
    where j1: "store ?s1 j = Some job1"
      and p1: "prefix (output_lines job) (output_lines job1)"
    by auto
  have le1: "idx g \<le> length (output_lines job1)"
    using Cons.prems(4) p1 by (auto dest: prefix_length_le)
  note st = gen_resume_step [OF j1 Cons.prems(3) le1 r]
  have w1: "wf_sys ?s1" using Cons.prems(1) by (rule wf_exec_trace)
  from st have gj: "gen_job g1 = j" and le2: "idx g1 \<le> length (output_lines job1)"
    and acc: "map data_chunk (take (idx g) (output_lines job1)) @ lines_of [out]
              = map data_chunk (take (idx g1) (output_lines job1))"
    and ix: "idx g1 = idx g + length (lines_of [out])"
    by blast+
  from Cons.IH [OF w1 j1 gj le2 rest [unfolded fin]] obtain job'
    where a: "store s' j = Some job'" and b: "idx g' \<le> length (output_lines job')"
      and c: "idx g' = idx g1 + length (lines_of outs1)"
      and d: "map data_chunk (take (idx g1) (output_lines job1)) @ lines_of outs1
              = map data_chunk (take (idx g') (output_lines job'))"
    by blast
  have tk: "take (idx g) (output_lines job1) = take (idx g) (output_lines job)"
    using p1 Cons.prems(4) by (rule prefix_take_eq)
  have "map data_chunk (take (idx g) (output_lines job)) @ lines_of outs
        = (map data_chunk (take (idx g) (output_lines job1)) @ lines_of [out]) @ lines_of outs1"
    by (simp add: tk outs lines_of_Cons [of out outs1])
  also have "\<dots> = map data_chunk (take (idx g1) (output_lines job1)) @ lines_of outs1"
    by (simp only: acc)
  also have "\<dots> = map data_chunk (take (idx g') (output_lines job'))"
    by (rule d)
  finally have "map data_chunk (take (idx g) (output_lines job)) @ lines_of outs
             = map data_chunk (take (idx g') (output_lines job'))" .
  moreover have "idx g' = idx g + length (lines_of outs)"
    using c ix by (simp add: outs lines_of_Cons [of out outs1])
  ultimately show ?case using a b by blast
qed

text \<open>
  What the resumption number \<open>k\<close> gives, by the job as it is at that moment. The
  cursor then is the start cursor plus the number of lines given before.
\<close>

lemma stream_run_at:
  assumes "wf_sys s" and "store s j = Some job" and "gen_job g = j"
    and "idx g \<le> length (output_lines job)" and "stream_run s g sched = (outs, s', g')"
    and "k < length sched"
  shows "\<exists>jobk. store (states_at s sched ! k) j = Some jobk
    \<and> (\<forall>c. outs ! k = Line_chunk c
          \<longrightarrow> idx g + length (lines_of (take k outs)) < length (output_lines jobk)
              \<and> c = data_chunk (output_lines jobk ! (idx g + length (lines_of (take k outs)))))
    \<and> (outs ! k = Sleeping
          \<longrightarrow> status jobk = Running
              \<and> idx g + length (lines_of (take k outs)) = length (output_lines jobk))
    \<and> (\<forall>c. outs ! k = Done_chunk c
          \<longrightarrow> status jobk \<noteq> Running \<and> c = done_chunk (status jobk)
              \<and> idx g + length (lines_of (take k outs)) = length (output_lines jobk))
    \<and> (outs ! k = Stopped
          \<longrightarrow> loc g \<in> {After_done, Closed} \<or> j \<notin> set (jobs (states_at s sched ! k))
              \<or> (\<exists>m<k. closing (outs ! m)))
    \<and> ((if k = 0 then loc g = At_poll else outs ! (k - 1) = Sleeping)
          \<and> j \<notin> set (jobs (states_at s sched ! k)) \<longrightarrow> outs ! k = Stopped)"
  using assms
proof (induction sched arbitrary: s g job outs k)
  case Nil
  then show ?case by simp
next
  case (Cons es sched)
  let ?s1 = "exec_trace es s"
  obtain out g1 where r: "gen_resume ?s1 g = (out, g1)" by force
  obtain outs1 s2 g2 where rest: "stream_run ?s1 g1 sched = (outs1, s2, g2)"
    by (cases "stream_run ?s1 g1 sched") auto
  have outs: "outs = out # outs1" and fin: "s2 = s'" "g2 = g'"
    using Cons.prems(5) r rest by simp_all
  from exec_trace_output_prefix [OF Cons.prems(1,2), of es] obtain job1
    where j1: "store ?s1 j = Some job1"
      and p1: "prefix (output_lines job) (output_lines job1)"
    by auto
  have le1: "idx g \<le> length (output_lines job1)"
    using Cons.prems(4) p1 by (auto dest: prefix_length_le)
  note st = gen_resume_step [OF j1 Cons.prems(3) le1 r]
  have w1: "wf_sys ?s1" using Cons.prems(1) by (rule wf_exec_trace)
  from st have gj: "gen_job g1 = j" and le2: "idx g1 \<le> length (output_lines job1)"
    and ix: "idx g1 = idx g + length (lines_of [out])"
    by blast+
  show ?case
  proof (cases k)
    case 0
    from st j1 show ?thesis by (simp add: 0 outs)
  next
    case (Suc k')
    then have k': "k' < length sched" using Cons.prems(6) by simp
    from Cons.IH [OF w1 j1 gj le2 rest [unfolded fin] k'] obtain jobk
      where a: "store (states_at ?s1 sched ! k') j = Some jobk"
        and b: "\<forall>c. outs1 ! k' = Line_chunk c
          \<longrightarrow> idx g1 + length (lines_of (take k' outs1)) < length (output_lines jobk)
              \<and> c = data_chunk (output_lines jobk ! (idx g1 + length (lines_of (take k' outs1))))"
        and c: "outs1 ! k' = Sleeping
          \<longrightarrow> status jobk = Running
              \<and> idx g1 + length (lines_of (take k' outs1)) = length (output_lines jobk)"
        and d: "\<forall>c. outs1 ! k' = Done_chunk c
          \<longrightarrow> status jobk \<noteq> Running \<and> c = done_chunk (status jobk)
              \<and> idx g1 + length (lines_of (take k' outs1)) = length (output_lines jobk)"
        and e: "outs1 ! k' = Stopped
          \<longrightarrow> loc g1 \<in> {After_done, Closed} \<or> j \<notin> set (jobs (states_at ?s1 sched ! k'))
              \<or> (\<exists>m<k'. closing (outs1 ! m))"
        and f: "(if k' = 0 then loc g1 = At_poll else outs1 ! (k' - 1) = Sleeping)
          \<and> j \<notin> set (jobs (states_at ?s1 sched ! k')) \<longrightarrow> outs1 ! k' = Stopped"
      by blast
    have cur: "idx g + length (lines_of (take k outs))
               = idx g1 + length (lines_of (take k' outs1))"
      by (simp add: Suc outs ix lines_of_Cons [of out "take k' outs1"])
    have at: "states_at s (es # sched) ! k = states_at ?s1 sched ! k'"
      and nth: "outs ! k = outs1 ! k'"
      by (simp_all add: Suc outs)
    have e': "outs ! k = Stopped
          \<longrightarrow> loc g \<in> {After_done, Closed}
              \<or> j \<notin> set (jobs (states_at s (es # sched) ! k))
              \<or> (\<exists>m<k. closing (outs ! m))"
    proof
      assume "outs ! k = Stopped"
      with e nth consider "loc g1 \<in> {After_done, Closed}"
        | "j \<notin> set (jobs (states_at ?s1 sched ! k'))" | "\<exists>m<k'. closing (outs1 ! m)"
        by auto
      then show "loc g \<in> {After_done, Closed}
              \<or> j \<notin> set (jobs (states_at s (es # sched) ! k))
              \<or> (\<exists>m<k. closing (outs ! m))"
      proof cases
        case 1
        with st have "loc g \<in> {After_done, Closed} \<or> closing out" by blast
        then show ?thesis
        proof
          assume "closing out"
          then have "0 < k \<and> closing (outs ! 0)" by (simp add: Suc outs)
          then show ?thesis by blast
        qed simp
      next
        case 2
        then show ?thesis using at by simp
      next
        case 3
        then obtain m where "m < k'" "closing (outs1 ! m)" by blast
        then have "Suc m < k \<and> closing (outs ! Suc m)" by (simp add: Suc outs)
        then show ?thesis by blast
      qed
    qed
    have f': "(if k = 0 then loc g = At_poll else outs ! (k - 1) = Sleeping)
          \<and> j \<notin> set (jobs (states_at s (es # sched) ! k)) \<longrightarrow> outs ! k = Stopped"
    proof
      assume h: "(if k = 0 then loc g = At_poll else outs ! (k - 1) = Sleeping)
          \<and> j \<notin> set (jobs (states_at s (es # sched) ! k))"
      then have sl: "outs ! k' = Sleeping" by (simp add: Suc)
      have "if k' = 0 then loc g1 = At_poll else outs1 ! (k' - 1) = Sleeping"
      proof (cases k')
        case 0
        with sl have "out = Sleeping" by (simp add: outs)
        with st have "loc g1 = At_poll" by blast
        with 0 show ?thesis by simp
      next
        case (Suc k'')
        with sl show ?thesis by (simp add: outs)
      qed
      with f h at have "outs1 ! k' = Stopped" by simp
      then show "outs ! k = Stopped" by (simp add: nth)
    qed
    from a b c d e' f' show ?thesis
      unfolding cur nth at by blast
  qed
qed

text \<open>
  The course of a stream, in terms of the two chunk functions: what each resumption
  gives, by the job as it is at that moment, from the start of the stream.
\<close>

lemma stream_run_facts:
  assumes "wf_sys s" and "stream_output s j = Inr g"
    and "stream_run s g sched = (outs, s', g')"
  shows "(\<exists>job'. store s' j = Some job'
            \<and> lines_of outs
               = map data_chunk (take (length (lines_of outs)) (output_lines job')))
    \<and> (\<forall>k < length outs. \<exists>jobk. store (states_at s sched ! k) j = Some jobk
          \<and> (\<forall>c. outs ! k = Line_chunk c
                \<longrightarrow> length (lines_of (take k outs)) < length (output_lines jobk)
                    \<and> c = data_chunk (output_lines jobk ! length (lines_of (take k outs))))
          \<and> (outs ! k = Sleeping
                \<longrightarrow> status jobk = Running
                    \<and> length (lines_of (take k outs)) = length (output_lines jobk))
          \<and> (\<forall>c. outs ! k = Done_chunk c
                \<longrightarrow> status jobk \<noteq> Running \<and> c = done_chunk (status jobk)
                    \<and> length (lines_of (take k outs)) = length (output_lines jobk))
          \<and> (outs ! k = Stopped
                \<longrightarrow> j \<notin> set (jobs (states_at s sched ! k)) \<or> (\<exists>m<k. closing (outs ! m)))
          \<and> ((k = 0 \<or> outs ! (k - 1) = Sleeping)
                \<and> j \<notin> set (jobs (states_at s sched ! k)) \<longrightarrow> outs ! k = Stopped))
    \<and> (\<forall>k m. k < m \<and> m < length outs \<and> closing (outs ! k) \<longrightarrow> outs ! m = Stopped)"
proof -
  from assms(2) have inj: "j \<in> set (jobs s)"
    and g: "g = \<lparr>gen_job = j, idx = 0, loc = At_poll\<rparr>"
    by (auto simp: stream_output_def split: if_splits)
  from inj assms(1) obtain job where job: "store s j = Some job"
    by (auto simp: wf_sys_def)
  have gj: "gen_job g = j" and i0: "idx g \<le> length (output_lines job)"
    and l0: "loc g = At_poll" and z: "idx g = 0"
    by (simp_all add: g)
  have len: "length outs = length sched" using assms(3) by (rule stream_run_length)
  from stream_run_lines [OF assms(1) job gj i0 assms(3)] obtain job'
    where s': "store s' j = Some job'" and ix: "idx g' = idx g + length (lines_of outs)"
      and acc: "map data_chunk (take (idx g) (output_lines job)) @ lines_of outs
                = map data_chunk (take (idx g') (output_lines job'))"
    by blast
  from ix z have ix': "idx g' = length (lines_of outs)" by simp
  from acc have "lines_of outs
                 = map data_chunk (take (length (lines_of outs)) (output_lines job'))"
    unfolding ix' z by simp
  with s' have one: "\<exists>job'. store s' j = Some job'
            \<and> lines_of outs
               = map data_chunk (take (length (lines_of outs)) (output_lines job'))"
    by blast
  have two: "\<exists>jobk. store (states_at s sched ! k) j = Some jobk
          \<and> (\<forall>c. outs ! k = Line_chunk c
                \<longrightarrow> length (lines_of (take k outs)) < length (output_lines jobk)
                    \<and> c = data_chunk (output_lines jobk ! length (lines_of (take k outs))))
          \<and> (outs ! k = Sleeping
                \<longrightarrow> status jobk = Running
                    \<and> length (lines_of (take k outs)) = length (output_lines jobk))
          \<and> (\<forall>c. outs ! k = Done_chunk c
                \<longrightarrow> status jobk \<noteq> Running \<and> c = done_chunk (status jobk)
                    \<and> length (lines_of (take k outs)) = length (output_lines jobk))
          \<and> (outs ! k = Stopped
                \<longrightarrow> j \<notin> set (jobs (states_at s sched ! k)) \<or> (\<exists>m<k. closing (outs ! m)))
          \<and> ((k = 0 \<or> outs ! (k - 1) = Sleeping)
                \<and> j \<notin> set (jobs (states_at s sched ! k)) \<longrightarrow> outs ! k = Stopped)"
    if k: "k < length outs" for k
  proof -
    from k len have "k < length sched" by simp
    from stream_run_at [OF assms(1) job gj i0 assms(3) this, unfolded z add_0]
    obtain jobk where a: "store (states_at s sched ! k) j = Some jobk"
      and b: "\<forall>c. outs ! k = Line_chunk c
                \<longrightarrow> length (lines_of (take k outs)) < length (output_lines jobk)
                    \<and> c = data_chunk (output_lines jobk ! length (lines_of (take k outs)))"
      and c: "outs ! k = Sleeping
                \<longrightarrow> status jobk = Running
                    \<and> length (lines_of (take k outs)) = length (output_lines jobk)"
      and d: "\<forall>c. outs ! k = Done_chunk c
                \<longrightarrow> status jobk \<noteq> Running \<and> c = done_chunk (status jobk)
                    \<and> length (lines_of (take k outs)) = length (output_lines jobk)"
      and e: "outs ! k = Stopped
                \<longrightarrow> loc g \<in> {After_done, Closed}
                    \<or> j \<notin> set (jobs (states_at s sched ! k)) \<or> (\<exists>m<k. closing (outs ! m))"
      and f: "(if k = 0 then loc g = At_poll else outs ! (k - 1) = Sleeping)
                \<and> j \<notin> set (jobs (states_at s sched ! k)) \<longrightarrow> outs ! k = Stopped"
      by blast
    from e l0 have e': "outs ! k = Stopped
                \<longrightarrow> j \<notin> set (jobs (states_at s sched ! k)) \<or> (\<exists>m<k. closing (outs ! m))"
      by simp
    have "(k = 0 \<or> outs ! (k - 1) = Sleeping)
          \<longrightarrow> (if k = 0 then loc g = At_poll else outs ! (k - 1) = Sleeping)"
      using l0 by simp
    with f have f': "(k = 0 \<or> outs ! (k - 1) = Sleeping)
                \<and> j \<notin> set (jobs (states_at s sched ! k)) \<longrightarrow> outs ! k = Stopped"
      by blast
    from a b c d e' f' show ?thesis by blast
  qed
  have three: "outs ! m = Stopped"
    if "k < m \<and> m < length outs \<and> closing (outs ! k)" for k m
    using stream_run_after_close [OF assms(3), of k m] that by blast
  show ?thesis
  proof (intro conjI)
    show "\<exists>job'. store s' j = Some job'
            \<and> lines_of outs
               = map data_chunk (take (length (lines_of outs)) (output_lines job'))"
      by (rule one)
    show "\<forall>k m. k < m \<and> m < length outs \<and> closing (outs ! k) \<longrightarrow> outs ! m = Stopped"
      using three by blast
  next
    show "\<forall>k < length outs. \<exists>jobk. store (states_at s sched ! k) j = Some jobk
          \<and> (\<forall>c. outs ! k = Line_chunk c
                \<longrightarrow> length (lines_of (take k outs)) < length (output_lines jobk)
                    \<and> c = data_chunk (output_lines jobk ! length (lines_of (take k outs))))
          \<and> (outs ! k = Sleeping
                \<longrightarrow> status jobk = Running
                    \<and> length (lines_of (take k outs)) = length (output_lines jobk))
          \<and> (\<forall>c. outs ! k = Done_chunk c
                \<longrightarrow> status jobk \<noteq> Running \<and> c = done_chunk (status jobk)
                    \<and> length (lines_of (take k outs)) = length (output_lines jobk))
          \<and> (outs ! k = Stopped
                \<longrightarrow> j \<notin> set (jobs (states_at s sched ! k)) \<or> (\<exists>m<k. closing (outs ! m)))
          \<and> ((k = 0 \<or> outs ! (k - 1) = Sleeping)
                \<and> j \<notin> set (jobs (states_at s sched ! k)) \<longrightarrow> outs ! k = Stopped)"
      by (intro allI impI) (rule two)
  qed
qed

lemma data_chunk_fun: "data_chunk = (\<lambda>l. ustr ''data: '' @ l @ [10])"
  by (rule ext) (simp add: data_chunk_def)

lemma data_chunk_line: "butlast (drop 6 (data_chunk l)) = l"
  by (simp add: data_chunk_def ustr_def butlast_append)

lemma status_str_table:
  "map status_str [Running, Finished, Error, Cancelled, Timeout]
   = [ustr ''running'', ustr ''finished'', ustr ''error'', ustr ''cancelled'',
      ustr ''timeout'']"
  by simp

lemma status_str_inj: "status_str st = status_str st' \<Longrightarrow> st = st'"
  by (cases st; cases st') (simp_all add: ustr_def)

text \<open>
  C9. A subscriber opens the stream of a job that is in the registry, and the service
  goes on between the resumptions of the generator in any way (\<open>sched\<close>). Then:
  \<^item> the lines received are the first lines of the job's output, in order, each as the
    text \<open>data: \<close>, the line, and a newline, so that the line is read back by dropping
    the six characters in front and the newline at the end; each line chunk is the line
    at the subscriber's cursor, which counts the lines it received;
  \<^item> the generator sleeps, to poll again, only while the job is running and the cursor
    is at the end of the output;
  \<^item> the done marker is given only when the status is no longer running and all lines
    were delivered, and it is the text \<open>event: done\<close>, a newline, \<open>data: \<close>, the
    status of the job at that moment, and two newlines; the five statuses are written
    \<open>running\<close>, \<open>finished\<close>, \<open>error\<close>, \<open>cancelled\<close> and \<open>timeout\<close>, so the
    marker tells which one it is;
  \<^item> after the done marker every resumption stops, so there is one marker at most;
  \<^item> the stream stops without a marker only when the job is no longer in the registry,
    and it does stop when the generator polls the registry and the job is gone.
  The generator has no failing step: stopping is its normal return.
\<close>

theorem stream_follows_job:
  assumes "wf_sys s" and "stream_output s j = Inr g"
    and "stream_run s g sched = (outs, s', g')"
  shows "(\<exists>job'. store s' j = Some job'
            \<and> lines_of outs
               = map (\<lambda>l. ustr ''data: '' @ l @ [10])
                     (take (length (lines_of outs)) (output_lines job'))
            \<and> map (\<lambda>c. butlast (drop 6 c)) (lines_of outs)
               = take (length (lines_of outs)) (output_lines job'))
    \<and> (\<forall>k < length outs. \<exists>jobk. store (states_at s sched ! k) j = Some jobk
          \<and> (\<forall>c. outs ! k = Line_chunk c
                \<longrightarrow> length (lines_of (take k outs)) < length (output_lines jobk)
                    \<and> c = ustr ''data: ''
                          @ output_lines jobk ! length (lines_of (take k outs)) @ [10])
          \<and> (outs ! k = Sleeping
                \<longrightarrow> status jobk = Running
                    \<and> length (lines_of (take k outs)) = length (output_lines jobk))
          \<and> (\<forall>c. outs ! k = Done_chunk c
                \<longrightarrow> status jobk \<noteq> Running
                    \<and> c = ustr ''event: done'' @ [10] @ ustr ''data: ''
                          @ status_str (status jobk) @ [10, 10]
                    \<and> length (lines_of (take k outs)) = length (output_lines jobk))
          \<and> (outs ! k = Stopped
                \<longrightarrow> j \<notin> set (jobs (states_at s sched ! k)) \<or> (\<exists>m<k. closing (outs ! m)))
          \<and> ((k = 0 \<or> outs ! (k - 1) = Sleeping)
                \<and> j \<notin> set (jobs (states_at s sched ! k)) \<longrightarrow> outs ! k = Stopped))
    \<and> (\<forall>k m. k < m \<and> m < length outs \<and> closing (outs ! k) \<longrightarrow> outs ! m = Stopped)
    \<and> map status_str [Running, Finished, Error, Cancelled, Timeout]
      = [ustr ''running'', ustr ''finished'', ustr ''error'', ustr ''cancelled'',
         ustr ''timeout'']
    \<and> (\<forall>st st'. status_str st = status_str st' \<longrightarrow> st = st')"
proof -
  note facts = stream_run_facts [OF assms]
  from facts obtain job' where s': "store s' j = Some job'"
    and ls: "lines_of outs = map data_chunk (take (length (lines_of outs)) (output_lines job'))"
    by blast
  have readback: "map (\<lambda>c. butlast (drop 6 c)) (map data_chunk xs) = xs" for xs
    by (induction xs) (simp_all add: data_chunk_line)
  have "map (\<lambda>c. butlast (drop 6 c)) (lines_of outs)
        = map (\<lambda>c. butlast (drop 6 c))
              (map data_chunk (take (length (lines_of outs)) (output_lines job')))"
    using ls by simp
  then have recov: "map (\<lambda>c. butlast (drop 6 c)) (lines_of outs)
                  = take (length (lines_of outs)) (output_lines job')"
    by (simp only: readback)
  from ls have ls': "lines_of outs
               = map (\<lambda>l. ustr ''data: '' @ l @ [10])
                     (take (length (lines_of outs)) (output_lines job'))"
    by (simp only: data_chunk_fun)
  have two: "\<exists>jobk. store (states_at s sched ! k) j = Some jobk
          \<and> (\<forall>c. outs ! k = Line_chunk c
                \<longrightarrow> length (lines_of (take k outs)) < length (output_lines jobk)
                    \<and> c = ustr ''data: ''
                          @ output_lines jobk ! length (lines_of (take k outs)) @ [10])
          \<and> (outs ! k = Sleeping
                \<longrightarrow> status jobk = Running
                    \<and> length (lines_of (take k outs)) = length (output_lines jobk))
          \<and> (\<forall>c. outs ! k = Done_chunk c
                \<longrightarrow> status jobk \<noteq> Running
                    \<and> c = ustr ''event: done'' @ [10] @ ustr ''data: ''
                          @ status_str (status jobk) @ [10, 10]
                    \<and> length (lines_of (take k outs)) = length (output_lines jobk))
          \<and> (outs ! k = Stopped
                \<longrightarrow> j \<notin> set (jobs (states_at s sched ! k)) \<or> (\<exists>m<k. closing (outs ! m)))
          \<and> ((k = 0 \<or> outs ! (k - 1) = Sleeping)
                \<and> j \<notin> set (jobs (states_at s sched ! k)) \<longrightarrow> outs ! k = Stopped)"
    if k: "k < length outs" for k
  proof -
    from facts k obtain jobk where a: "store (states_at s sched ! k) j = Some jobk"
      and b: "\<forall>c. outs ! k = Line_chunk c
                \<longrightarrow> length (lines_of (take k outs)) < length (output_lines jobk)
                    \<and> c = data_chunk (output_lines jobk ! length (lines_of (take k outs)))"
      and c: "outs ! k = Sleeping
                \<longrightarrow> status jobk = Running
                    \<and> length (lines_of (take k outs)) = length (output_lines jobk)"
      and d: "\<forall>c. outs ! k = Done_chunk c
                \<longrightarrow> status jobk \<noteq> Running \<and> c = done_chunk (status jobk)
                    \<and> length (lines_of (take k outs)) = length (output_lines jobk)"
      and e: "outs ! k = Stopped
                \<longrightarrow> j \<notin> set (jobs (states_at s sched ! k)) \<or> (\<exists>m<k. closing (outs ! m))"
      and f: "(k = 0 \<or> outs ! (k - 1) = Sleeping)
                \<and> j \<notin> set (jobs (states_at s sched ! k)) \<longrightarrow> outs ! k = Stopped"
      by blast
    from b have b': "\<forall>c. outs ! k = Line_chunk c
                \<longrightarrow> length (lines_of (take k outs)) < length (output_lines jobk)
                    \<and> c = ustr ''data: ''
                          @ output_lines jobk ! length (lines_of (take k outs)) @ [10]"
      by (simp add: data_chunk_def)
    from d have d': "\<forall>c. outs ! k = Done_chunk c
                \<longrightarrow> status jobk \<noteq> Running
                    \<and> c = ustr ''event: done'' @ [10] @ ustr ''data: ''
                          @ status_str (status jobk) @ [10, 10]
                    \<and> length (lines_of (take k outs)) = length (output_lines jobk)"
      by (simp add: done_chunk_def)
    from a b' c d' e f show ?thesis by blast
  qed
  show ?thesis
  proof (intro conjI)
    show "\<exists>job'. store s' j = Some job'
            \<and> lines_of outs
               = map (\<lambda>l. ustr ''data: '' @ l @ [10])
                     (take (length (lines_of outs)) (output_lines job'))
            \<and> map (\<lambda>c. butlast (drop 6 c)) (lines_of outs)
               = take (length (lines_of outs)) (output_lines job')"
      using s' ls' recov by blast
    show "\<forall>k m. k < m \<and> m < length outs \<and> closing (outs ! k) \<longrightarrow> outs ! m = Stopped"
      using facts by blast
    show "map status_str [Running, Finished, Error, Cancelled, Timeout]
      = [ustr ''running'', ustr ''finished'', ustr ''error'', ustr ''cancelled'',
         ustr ''timeout'']"
      by (rule status_str_table)
    show "\<forall>st st'. status_str st = status_str st' \<longrightarrow> st = st'"
      using status_str_inj by blast
  next
    show "\<forall>k < length outs. \<exists>jobk. store (states_at s sched ! k) j = Some jobk
          \<and> (\<forall>c. outs ! k = Line_chunk c
                \<longrightarrow> length (lines_of (take k outs)) < length (output_lines jobk)
                    \<and> c = ustr ''data: ''
                          @ output_lines jobk ! length (lines_of (take k outs)) @ [10])
          \<and> (outs ! k = Sleeping
                \<longrightarrow> status jobk = Running
                    \<and> length (lines_of (take k outs)) = length (output_lines jobk))
          \<and> (\<forall>c. outs ! k = Done_chunk c
                \<longrightarrow> status jobk \<noteq> Running
                    \<and> c = ustr ''event: done'' @ [10] @ ustr ''data: ''
                          @ status_str (status jobk) @ [10, 10]
                    \<and> length (lines_of (take k outs)) = length (output_lines jobk))
          \<and> (outs ! k = Stopped
                \<longrightarrow> j \<notin> set (jobs (states_at s sched ! k)) \<or> (\<exists>m<k. closing (outs ! m)))
          \<and> ((k = 0 \<or> outs ! (k - 1) = Sleeping)
                \<and> j \<notin> set (jobs (states_at s sched ! k)) \<longrightarrow> outs ! k = Stopped)"
      by (intro allI impI) (rule two)
  qed
qed

theorem stream_follows_job_witness:
  "wf_sys demo_reading
   \<and> stream_output demo_reading 0 = Inr \<lparr>gen_job = 0, idx = 0, loc = At_poll\<rparr>
   \<and> fst (stream_run demo_reading \<lparr>gen_job = 0, idx = 0, loc = At_poll\<rparr> demo_sched)
     = [Line_chunk (ustr ''data: y'' @ [10, 10]), Line_chunk (ustr ''data: y'' @ [10, 10]),
        Sleeping, Done_chunk (ustr ''event: done'' @ [10] @ ustr ''data: cancelled'' @ [10, 10]),
        Stopped, Stopped, Stopped]
   \<and> (\<exists>job'. store (fst (snd (stream_run demo_reading
                     \<lparr>gen_job = 0, idx = 0, loc = At_poll\<rparr> demo_sched))) 0 = Some job'
         \<and> [ustr ''y'' @ [10], ustr ''y'' @ [10]] = take 2 (output_lines job'))"
proof -
  let ?g = "\<lparr>gen_job = 0, idx = 0, loc = At_poll\<rparr>"
  let ?X = "stream_run demo_reading ?g demo_sched"
  have h1: "wf_sys demo_reading" by (simp add: demo_reading_eq wf_sys_def)
  have h2: "stream_output demo_reading 0 = Inr ?g"
    by (simp add: stream_output_def demo_reading_eq)
  have h3: "?X = (fst ?X, fst (snd ?X), snd (snd ?X))" by simp
  have ev: "fst ?X = [Line_chunk (data_chunk y_line), Line_chunk (data_chunk y_line), Sleeping,
        Done_chunk (done_chunk Cancelled), Stopped, Stopped, Stopped]"
    by (simp add: demo_sched_def demo_reading_eq sys_defs gen_resume_def gen_body_def
                  yes_job_def Let_def)
  have chunk_text: "data_chunk y_line = ustr ''data: y'' @ [10, 10]"
    "done_chunk Cancelled = ustr ''event: done'' @ [10] @ ustr ''data: cancelled'' @ [10, 10]"
    by (simp_all add: data_chunk_def done_chunk_def y_line_def ustr_def)
  have ev': "fst ?X = [Line_chunk (ustr ''data: y'' @ [10, 10]),
        Line_chunk (ustr ''data: y'' @ [10, 10]), Sleeping,
        Done_chunk (ustr ''event: done'' @ [10] @ ustr ''data: cancelled'' @ [10, 10]),
        Stopped, Stopped, Stopped]"
    unfolding ev chunk_text by (rule refl)
  from stream_follows_job [OF h1 h2 h3]
  have "\<exists>job'. store (fst (snd ?X)) 0 = Some job'
          \<and> lines_of (fst ?X)
            = map (\<lambda>l. ustr ''data: '' @ l @ [10])
                  (take (length (lines_of (fst ?X))) (output_lines job'))
          \<and> map (\<lambda>c. butlast (drop 6 c)) (lines_of (fst ?X))
            = take (length (lines_of (fst ?X))) (output_lines job')"
    by (rule conjunct1)
  then obtain job' where a: "store (fst (snd ?X)) 0 = Some job'"
    and b: "map (\<lambda>c. butlast (drop 6 c)) (lines_of (fst ?X))
            = take (length (lines_of (fst ?X))) (output_lines job')"
    by blast
  have c: "map (\<lambda>c. butlast (drop 6 c)) (lines_of (fst ?X)) = [ustr ''y'' @ [10], ustr ''y'' @ [10]]"
    unfolding ev by (simp add: data_chunk_line y_line_def ustr_def)
  have d: "length (lines_of (fst ?X)) = 2" unfolding ev by simp
  from b have "[ustr ''y'' @ [10], ustr ''y'' @ [10]] = take 2 (output_lines job')"
    unfolding c d by simp
  with a h1 h2 ev' show ?thesis by blast
qed

end
